theory Spec2Isabelle
  imports Main "HOL-Library.Word" "HOL-Library.Char_ord" "HOL-Library.List_Lexorder"
    "HOL-Library.Multiset"
begin

section \<open>Machine integers, strings and the random source\<close>

text \<open>
  The script computes with \<open>uint32\<close> and \<open>uint16\<close> values; both are modelled as
  machine words, so every addition wraps around as it does in the C++ code.
\<close>

type_synonym uint32 = "32 word"
type_synonym uint16 = "16 word"

text \<open>
  Modelled from the spec: \<open>urand(lo, hi)\<close> is the server's uniform draw of an
  integer in \<open>[lo, hi]\<close> (its body is in the server's utility library, not in the
  script). The random source is the sequence of raw values the generator will deliver; a
  call consumes the next raw value \<open>r\<close> and returns \<open>lo + r mod (hi - lo + 1)\<close>, so
  every value of the interval is returned by exactly one residue of the raw value. A
  source that has run dry keeps returning \<open>lo\<close>.
\<close>

type_synonym rng = "nat list"

definition urand :: "uint32 \<Rightarrow> uint32 \<Rightarrow> rng \<Rightarrow> uint32 \<times> rng" where
  "urand lo hi g =
     (case g of
        [] \<Rightarrow> (lo, [])
      | r # g' \<Rightarrow> (lo + of_nat (r mod (unat hi - unat lo + 1)), g'))"

text \<open>\<open>std::to_string\<close> on an unsigned integer: its decimal digits, most significant first.\<close>

definition digit_char :: "nat \<Rightarrow> char" where
  "digit_char d = char_of (48 + d)"

fun to_string :: "nat \<Rightarrow> string" where
  "to_string n =
     (if n < 10 then [digit_char n]
      else to_string (n div 10) @ [digit_char (n mod 10)])"

declare to_string.simps [simp del]

section \<open>The whitelist\<close>

record SlamrockWhitelistRow =
  enchantId :: uint32
  groupKey :: string
  rank :: uint16
  minIlvl :: uint16
  weight :: uint16

text \<open>If \<open>group_key\<close> is blank, the enchant itself is its own group.\<close>

definition GetEffectiveGroupKey :: "SlamrockWhitelistRow \<Rightarrow> string" where
  "GetEffectiveGroupKey row =
     (if groupKey row \<noteq> [] then groupKey row else to_string (unat (enchantId row)))"

text \<open>
  The test both pickers and the item-use hook run on every row before anything else:
  \<open>if (row.weight == 0 || row.minIlvl > itemLevel) continue;\<close>. The \<open>uint16\<close>
  level is widened to the \<open>uint32\<close> item level for the comparison.
\<close>

definition rowSkipped :: "uint32 \<Rightarrow> SlamrockWhitelistRow \<Rightarrow> bool" where
  "rowSkipped itemLevel row \<longleftrightarrow> weight row = 0 \<or> ucast (minIlvl row) > itemLevel"

subsection \<open>The weighted group sampler\<close>

text \<open>
  \<open>std::map<std::string, uint32> groupWeights\<close> is kept as an association list in
  ascending key order (the order in which the C++ map is iterated). \<open>groupWeightsPut\<close>
  is the body of the first loop after the filters: a key that is not yet in the map is
  inserted with the row's weight, a key that is there keeps the larger weight.
\<close>

fun groupWeightsPut :: "string \<Rightarrow> uint32 \<Rightarrow> (string \<times> uint32) list \<Rightarrow> (string \<times> uint32) list" where
  "groupWeightsPut key w [] = [(key, w)]"
| "groupWeightsPut key w ((k, v) # kvs) =
     (if key = k then (k, if w > v then w else v) # kvs
      else if key < k then (key, w) # (k, v) # kvs
      else (k, v) # groupWeightsPut key w kvs)"

definition groupWeightsStep ::
  "uint32 \<Rightarrow> string list \<Rightarrow> SlamrockWhitelistRow \<Rightarrow> (string \<times> uint32) list \<Rightarrow> (string \<times> uint32) list" where
  "groupWeightsStep itemLevel excludeGroups row gw =
     (if rowSkipped itemLevel row then gw
      else let key = GetEffectiveGroupKey row in
        if excludeGroups \<noteq> [] \<and> list_ex (\<lambda>ex. ex = key) excludeGroups then gw
        else groupWeightsPut key (ucast (weight row)) gw)"

definition groupWeights ::
  "SlamrockWhitelistRow list \<Rightarrow> uint32 \<Rightarrow> string list \<Rightarrow> (string \<times> uint32) list" where
  "groupWeights pool itemLevel excludeGroups =
     fold (groupWeightsStep itemLevel excludeGroups) pool []"

text \<open>\<open>for (auto const& kv : groupWeights) totalWeight += kv.second;\<close>\<close>

definition totalWeight :: "(string \<times> uint32) list \<Rightarrow> uint32" where
  "totalWeight gw = fold (\<lambda>kv total. total + snd kv) gw 0"

text \<open>
  The cumulative walk: \<open>running += kv.second; if (roll <= running) return kv.first\<close>;
  \<open>None\<close> is the \<open>return false\<close> after the loop.
\<close>

fun groupWalk :: "(string \<times> uint32) list \<Rightarrow> uint32 \<Rightarrow> uint32 \<Rightarrow> string option" where
  "groupWalk [] running roll = None"
| "groupWalk ((k, v) # kvs) running roll =
     (let running' = running + v in
      if roll \<le> running' then Some k else groupWalk kvs running' roll)"

definition PickWeightedGroupFromWhitelist ::
  "SlamrockWhitelistRow list \<Rightarrow> uint32 \<Rightarrow> string list \<Rightarrow> rng \<Rightarrow> string option \<times> rng" where
  "PickWeightedGroupFromWhitelist pool itemLevel excludeGroups g =
     (let gw = groupWeights pool itemLevel excludeGroups;
          total = totalWeight gw in
      if total = 0 \<or> gw = [] then (None, g)
      else let (roll, g') = urand 1 total g in (groupWalk gw 0 roll, g'))"

subsection \<open>The rank picker\<close>

definition rankSkipped :: "uint32 \<Rightarrow> string \<Rightarrow> SlamrockWhitelistRow \<Rightarrow> bool" where
  "rankSkipped itemLevel key row \<longleftrightarrow>
     rowSkipped itemLevel row \<or> GetEffectiveGroupKey row \<noteq> key"

text \<open>The first loop counts the eligible rows of the group in a \<open>uint32\<close>.\<close>

definition eligibleCount :: "SlamrockWhitelistRow list \<Rightarrow> uint32 \<Rightarrow> string \<Rightarrow> uint32" where
  "eligibleCount pool itemLevel key =
     fold (\<lambda>row n. if rankSkipped itemLevel key row then n else n + 1) pool 0"

text \<open>The second loop: \<open>++seen; if (seen >= roll) return row.enchantId\<close>.\<close>

fun rankWalk ::
  "SlamrockWhitelistRow list \<Rightarrow> uint32 \<Rightarrow> string \<Rightarrow> uint32 \<Rightarrow> uint32 \<Rightarrow> uint32 option" where
  "rankWalk [] itemLevel key seen roll = None"
| "rankWalk (row # rows) itemLevel key seen roll =
     (if rankSkipped itemLevel key row then rankWalk rows itemLevel key seen roll
      else let seen' = seen + 1 in
        if seen' \<ge> roll then Some (enchantId row)
        else rankWalk rows itemLevel key seen' roll)"

definition PickRandomEligibleRankEnchantForGroup ::
  "SlamrockWhitelistRow list \<Rightarrow> uint32 \<Rightarrow> string \<Rightarrow> rng \<Rightarrow> uint32 option \<times> rng" where
  "PickRandomEligibleRankEnchantForGroup pool itemLevel key g =
     (let n = eligibleCount pool itemLevel key in
      if n = 0 then (None, g)
      else let (roll, g') = urand 1 n g in (rankWalk pool itemLevel key 0 roll, g'))"

text \<open>
  The rows the spec calls eligible for a group: weight above zero, minimum tier at most
  the item's tier, and the group key asked for; in pool order.
\<close>

definition eligibleRows ::
  "SlamrockWhitelistRow list \<Rightarrow> uint32 \<Rightarrow> string \<Rightarrow> SlamrockWhitelistRow list" where
  "eligibleRows pool itemLevel key =
     filter (\<lambda>row. weight row > 0 \<and> ucast (minIlvl row) \<le> itemLevel
                   \<and> GetEffectiveGroupKey row = key) pool"


subsection \<open>Sample pools\<close>

text \<open>A pool with three ranks of one group, a disabled row, a second group and a self-grouped row.\<close>

definition pool6 :: "SlamrockWhitelistRow list" where
  "pool6 =
     [\<lparr>enchantId = 11, groupKey = ''A'', rank = 1, minIlvl = 0, weight = 5\<rparr>,
      \<lparr>enchantId = 12, groupKey = ''A'', rank = 2, minIlvl = 20, weight = 9\<rparr>,
      \<lparr>enchantId = 13, groupKey = ''A'', rank = 3, minIlvl = 60, weight = 9\<rparr>,
      \<lparr>enchantId = 14, groupKey = ''A'', rank = 4, minIlvl = 0, weight = 0\<rparr>,
      \<lparr>enchantId = 21, groupKey = ''B'', rank = 1, minIlvl = 0, weight = 10\<rparr>,
      \<lparr>enchantId = 77, groupKey = [], rank = 1, minIlvl = 0, weight = 10\<rparr>]"

text \<open>One enabled row of group \<open>A\<close>; repeated, it fills a pool of any size.\<close>

definition bigRow :: SlamrockWhitelistRow where
  "bigRow = \<lparr>enchantId = 1, groupKey = ''A'', rank = 1, minIlvl = 0, weight = 1\<rparr>"

text \<open>What one more row does to the entry of a key.\<close>

definition entryAfter :: "uint32 option \<Rightarrow> uint32 \<Rightarrow> uint32 option" where
  "entryAfter e w = Some (case e of None \<Rightarrow> w | Some v \<Rightarrow> max v w)"

definition wrapPool :: "SlamrockWhitelistRow list" where
  "wrapPool =
     map (\<lambda>i. \<lparr>enchantId = of_nat i, groupKey = [], rank = 1, minIlvl = 0, weight = 65535\<rparr>)
         [1..<65538]
     @ [\<lparr>enchantId = 65538, groupKey = [], rank = 1, minIlvl = 0, weight = 1\<rparr>]"

definition from_digits :: "string \<Rightarrow> nat" where
  "from_digits s = fold (\<lambda>c acc. 10 * acc + (of_char c - 48)) s 0"

definition poolAB :: "SlamrockWhitelistRow list" where
  "poolAB =
     [\<lparr>enchantId = 1, groupKey = ''A'', rank = 1, minIlvl = 0, weight = 5\<rparr>,
      \<lparr>enchantId = 2, groupKey = ''B'', rank = 1, minIlvl = 0, weight = 10\<rparr>]"

definition rowA9 :: SlamrockWhitelistRow where
  "rowA9 = \<lparr>enchantId = 3, groupKey = ''A'', rank = 2, minIlvl = 0, weight = 9\<rparr>"

definition rowA7 :: SlamrockWhitelistRow where
  "rowA7 = \<lparr>enchantId = 4, groupKey = ''A'', rank = 3, minIlvl = 0, weight = 7\<rparr>"

section \<open>The item catalog and the swap selectors\<close>

record ItemPrototype =
  ItemId :: uint32
  Class :: uint32
  SubClass :: uint32
  InventoryType :: uint32
  ItemLevel :: uint32

text \<open>
  Modelled from the spec: the two slot types that are not gear ("excludes non-equip and
  container slot types") and the weapon class. The enumerators are declared in the
  server's item header, which is not among the script's sources; they carry that header's
  values.
\<close>

definition INVTYPE_NON_EQUIP :: uint32 where "INVTYPE_NON_EQUIP = 0"

definition INVTYPE_BAG :: uint32 where "INVTYPE_BAG = 18"

definition ITEM_CLASS_WEAPON :: uint32 where "ITEM_CLASS_WEAPON = 2"

text \<open>
  Modelled from the spec: the Catalog Service, "read-only lookup of item definitions by id
  and by iteration over the full range" (\<open>sItemStorage.GetMaxEntry()\<close> and
  \<open>sItemStorage.LookupEntry<ItemPrototype>(entry)\<close>, \<open>None\<close> for a null pointer).
\<close>

record ItemStorage =
  GetMaxEntry :: uint32
  LookupEntry :: "uint32 \<Rightarrow> ItemPrototype option"

text \<open>\<open>for (uint32 entry = 1; entry < sItemStorage.GetMaxEntry(); ++entry)\<close>\<close>

definition storageEntries :: "ItemStorage \<Rightarrow> uint32 list" where
  "storageEntries st = map of_nat [1..<unat (GetMaxEntry st)]"

record ItemTypeKey =
  itemClass :: uint32
  subClass :: uint32
  inventoryType :: uint32

definition typeKeyOf :: "ItemPrototype \<Rightarrow> ItemTypeKey" where
  "typeKeyOf proto =
     \<lparr>itemClass = Class proto, subClass = SubClass proto, inventoryType = InventoryType proto\<rparr>"

text \<open>
  The lazily built indexes. Each is a \<open>static\<close> map filled on the first call from the
  item storage and never changed afterwards, so it is a function of the storage. One
  iteration of the filling loop is \<open>indexStep\<close>: an entry without a prototype or one
  that is not gear is skipped, any other is appended to the vector of its key.
  \<open>std::sort\<close> with the comparison \<open>a.first < b.first\<close> orders each vector by item
  level; the order it leaves among entries of equal level is not specified by C++, the
  model keeps their storage order. What is proved of the selectors below (the set of
  candidates, and that each candidate is returned by exactly one draw) does not depend on
  the order among equal levels.
\<close>

definition indexStep ::
  "ItemStorage \<Rightarrow> (ItemPrototype \<Rightarrow> 'k) \<Rightarrow> uint32 \<Rightarrow> ('k \<rightharpoonup> (uint32 \<times> uint32) list)
     \<Rightarrow> ('k \<rightharpoonup> (uint32 \<times> uint32) list)" where
  "indexStep st keyOf entry m =
     (case LookupEntry st entry of
        None \<Rightarrow> m
      | Some proto \<Rightarrow>
          if InventoryType proto = INVTYPE_NON_EQUIP \<or> InventoryType proto = INVTYPE_BAG then m
          else m(keyOf proto \<mapsto>
                  (case m (keyOf proto) of None \<Rightarrow> [] | Some vec \<Rightarrow> vec)
                    @ [(ItemLevel proto, ItemId proto)]))"

definition buildIndex ::
  "ItemStorage \<Rightarrow> (ItemPrototype \<Rightarrow> 'k) \<Rightarrow> ('k \<rightharpoonup> (uint32 \<times> uint32) list)" where
  "buildIndex st keyOf =
     (\<lambda>key. map_option (sort_key fst)
        (fold (indexStep st keyOf) (storageEntries st) Map.empty key))"

definition byType :: "ItemStorage \<Rightarrow> (ItemTypeKey \<rightharpoonup> (uint32 \<times> uint32) list)" where
  "byType st = buildIndex st typeKeyOf"

definition byClass :: "ItemStorage \<Rightarrow> (uint32 \<rightharpoonup> (uint32 \<times> uint32) list)" where
  "byClass st = buildIndex st Class"

text \<open>
  The candidate loop of the downgrade: \<open>break\<close> at the first entry whose level is not
  below the target's, \<open>continue\<close> over the target's own id.
\<close>

fun downgradeCandidates :: "(uint32 \<times> uint32) list \<Rightarrow> ItemPrototype \<Rightarrow> uint32 list" where
  "downgradeCandidates [] targetProto = []"
| "downgradeCandidates (it # vec) targetProto =
     (if fst it \<ge> ItemLevel targetProto then []
      else if snd it = ItemId targetProto then downgradeCandidates vec targetProto
      else snd it # downgradeCandidates vec targetProto)"

text \<open>
  \<open>PickDowngradeEntry\<close>; the result 0 is "none". The two counters the caller passes
  for its log line are left out.
\<close>

definition PickDowngradeEntry :: "ItemStorage \<Rightarrow> ItemPrototype option \<Rightarrow> rng \<Rightarrow> uint32 \<times> rng" where
  "PickDowngradeEntry st targetProto g =
     (case targetProto of
        None \<Rightarrow> (0, g)
      | Some tp \<Rightarrow>
          if ItemLevel tp = 0 then (0, g)
          else
            (case byType st (typeKeyOf tp) of
               None \<Rightarrow> (0, g)
             | Some vec \<Rightarrow>
                 if vec = [] then (0, g)
                 else
                   let candidates = downgradeCandidates vec tp in
                   if candidates = [] then (0, g)
                   else
                     let (i, g') = urand 0 (of_nat (length candidates - 1)) g
                     in (candidates ! unat i, g')))"

text \<open>
  The candidate loop of the upgrade: \<open>continue\<close> below the target level, \<open>break\<close>
  above the maximum level, \<open>continue\<close> over the target's own id.
\<close>

fun upgradeCandidates ::
  "(uint32 \<times> uint32) list \<Rightarrow> uint32 \<Rightarrow> uint32 \<Rightarrow> uint32 \<Rightarrow> uint32 list" where
  "upgradeCandidates [] targetIlvl maxIlvl targetId = []"
| "upgradeCandidates (it # vec) targetIlvl maxIlvl targetId =
     (if fst it < targetIlvl then upgradeCandidates vec targetIlvl maxIlvl targetId
      else if fst it > maxIlvl then []
      else if snd it = targetId then upgradeCandidates vec targetIlvl maxIlvl targetId
      else snd it # upgradeCandidates vec targetIlvl maxIlvl targetId)"

definition PickUpgradeEntrySameClass ::
  "ItemStorage \<Rightarrow> ItemPrototype option \<Rightarrow> uint32 \<Rightarrow> rng \<Rightarrow> uint32 \<times> rng" where
  "PickUpgradeEntrySameClass st targetProto maxIlvlDelta g =
     (case targetProto of
        None \<Rightarrow> (0, g)
      | Some tp \<Rightarrow>
          let targetIlvl = ItemLevel tp;
              maxIlvl = targetIlvl + maxIlvlDelta
          in
            (case byClass st (Class tp) of
               None \<Rightarrow> (0, g)
             | Some vec \<Rightarrow>
                 if vec = [] then (0, g)
                 else
                   let candidates = upgradeCandidates vec targetIlvl maxIlvl (ItemId tp) in
                   if candidates = [] then (0, g)
                   else
                     let (i, g') = urand 0 (of_nat (length candidates - 1)) g
                     in (candidates ! unat i, g')))"

text \<open>The candidate lists the two selectors draw from (empty when the key has no vector).\<close>

definition downgradeCandidatesOf :: "ItemStorage \<Rightarrow> ItemPrototype \<Rightarrow> uint32 list" where
  "downgradeCandidatesOf st tp =
     (case byType st (typeKeyOf tp) of None \<Rightarrow> [] | Some vec \<Rightarrow> downgradeCandidates vec tp)"

definition upgradeCandidatesOf :: "ItemStorage \<Rightarrow> ItemPrototype \<Rightarrow> uint32 \<Rightarrow> uint32 list" where
  "upgradeCandidatesOf st tp maxIlvlDelta =
     (case byClass st (Class tp) of
        None \<Rightarrow> []
      | Some vec \<Rightarrow>
          upgradeCandidates vec (ItemLevel tp) (ItemLevel tp + maxIlvlDelta) (ItemId tp))"

text \<open>
  A catalog of three swords (class 2, subclass 7, main-hand slot type 21) of tiers 10, 20
  and 30, a bag, and a staff of tier 24.
\<close>

definition sword :: "uint32 \<Rightarrow> uint32 \<Rightarrow> ItemPrototype" where
  "sword ident tier =
     \<lparr>ItemId = ident, Class = 2, SubClass = 7, InventoryType = 21, ItemLevel = tier\<rparr>"

definition catalog :: ItemStorage where
  "catalog =
     \<lparr>GetMaxEntry = 401,
      LookupEntry = (\<lambda>entry.
        if entry = 100 then Some (sword 100 10)
        else if entry = 200 then Some (sword 200 20)
        else if entry = 300 then Some (sword 300 30)
        else if entry = 250 then
          Some \<lparr>ItemId = 250, Class = 1, SubClass = 0, InventoryType = 18, ItemLevel = 15\<rparr>
        else if entry = 400 then
          Some \<lparr>ItemId = 400, Class = 2, SubClass = 10, InventoryType = 17, ItemLevel = 24\<rparr>
        else None)\<rparr>"

subsection \<open>The tier indexes\<close>

definition gearOf :: "ItemStorage \<Rightarrow> (ItemPrototype \<Rightarrow> 'k) \<Rightarrow> 'k \<Rightarrow> uint32 list \<Rightarrow> ItemPrototype list" where
  "gearOf st keyOf key es =
     filter (\<lambda>p. InventoryType p \<noteq> INVTYPE_NON_EQUIP \<and> InventoryType p \<noteq> INVTYPE_BAG
                \<and> keyOf p = key)
       (List.map_filter (LookupEntry st) es)"

section \<open>Items, the player and the server's services\<close>

type_synonym uint8 = "8 word"

datatype EnchantmentSlot =
    PERM_ENCHANTMENT_SLOT
  | TEMP_ENCHANTMENT_SLOT
  | PROP_ENCHANTMENT_SLOT_0
  | PROP_ENCHANTMENT_SLOT_1
  | PROP_ENCHANTMENT_SLOT_2
  | PROP_ENCHANTMENT_SLOT_3

definition SLAMROCK_MARKER_ENCHANT_ID :: uint32 where
  "SLAMROCK_MARKER_ENCHANT_ID = 900000"

definition SLAMROCK_MARKER_SLOT :: EnchantmentSlot where
  "SLAMROCK_MARKER_SLOT = PROP_ENCHANTMENT_SLOT_0"

definition SLAMROCK_MODIFIER_SLOTS :: "EnchantmentSlot list" where
  "SLAMROCK_MODIFIER_SLOTS =
     [PROP_ENCHANTMENT_SLOT_1, PROP_ENCHANTMENT_SLOT_2, PROP_ENCHANTMENT_SLOT_3]"

definition SLAMROCK_ALL_PROP_SLOTS :: "EnchantmentSlot list" where
  "SLAMROCK_ALL_PROP_SLOTS =
     [PROP_ENCHANTMENT_SLOT_0, PROP_ENCHANTMENT_SLOT_1, PROP_ENCHANTMENT_SLOT_2,
      PROP_ENCHANTMENT_SLOT_3]"

definition SLAMROCK_MAX_MODIFIERS :: uint32 where "SLAMROCK_MAX_MODIFIERS = 3"

definition SLAMROCK_UPGRADE_CHANCE_PCT :: uint32 where "SLAMROCK_UPGRADE_CHANCE_PCT = 2"

definition SLAMROCK_UPGRADE_MAX_ILVL_DELTA :: uint32 where "SLAMROCK_UPGRADE_MAX_ILVL_DELTA = 5"

definition SLAMROCK_DOWNGRADE_CHANCE_PCT :: uint32 where "SLAMROCK_DOWNGRADE_CHANCE_PCT = 25"

text \<open>
  Modelled from the spec: the equipment slots ("main-hand, off-hand, or ranged have
  independent refresh scopes; other slots need no refresh"). The enumerators are declared
  in the server's player header, not in the script; they carry that header's values.
\<close>

definition EQUIPMENT_SLOT_MAINHAND :: uint8 where "EQUIPMENT_SLOT_MAINHAND = 15"

definition EQUIPMENT_SLOT_OFFHAND :: uint8 where "EQUIPMENT_SLOT_OFFHAND = 16"

definition EQUIPMENT_SLOT_RANGED :: uint8 where "EQUIPMENT_SLOT_RANGED = 17"

definition EQUIPMENT_SLOT_END :: uint8 where "EQUIPMENT_SLOT_END = 19"

text \<open>
  Modelled from the spec: a target item instance, "a reference to its ItemDefinition, a
  randomPropertyId, and up to four property enchantment slots plus one permanent
  enchantment slot". The fields are what the script reads through the accessors of the
  same names; an enchantment id of 0 is an empty slot; \<open>changed\<close> is the dirty mark
  \<open>SetState(ITEM_CHANGED)\<close> leaves.
\<close>

record Item =
  GetEntry :: uint32
  GetProto :: "ItemPrototype option"
  GetOwner :: "nat option"
  GetItemRandomPropertyId :: int
  GetBagSlot :: uint8
  GetSlot :: uint8
  GetEnchantmentId :: "EnchantmentSlot \<Rightarrow> uint32"
  changed :: bool

definition SetEnchantment :: "EnchantmentSlot \<Rightarrow> uint32 \<Rightarrow> Item \<Rightarrow> Item" where
  "SetEnchantment slot ident item =
     item\<lparr>GetEnchantmentId := (GetEnchantmentId item)(slot := ident)\<rparr>"

definition ClearEnchantment :: "EnchantmentSlot \<Rightarrow> Item \<Rightarrow> Item" where
  "ClearEnchantment slot item =
     item\<lparr>GetEnchantmentId := (GetEnchantmentId item)(slot := 0)\<rparr>"

definition SetState_ITEM_CHANGED :: "Item \<Rightarrow> Item" where
  "SetState_ITEM_CHANGED item = item\<lparr>changed := True\<rparr>"

datatype WeaponAttackType = BASE_ATTACK | OFF_ATTACK | RANGED_ATTACK

datatype SpellCastResult = SPELL_FAILED_BAD_TARGETS | SPELL_FAILED_ERROR

datatype InventoryResult = EQUIP_ERR_OK | EQUIP_ERR_FAILURE nat

type_synonym ItemPosCountVec = "(uint8 \<times> uint8 \<times> uint32) list"

text \<open>The messages the script sends to the player's session, by their wording.\<close>

datatype Notification =
    NoItemTargetReceived
  | TargetingItemEntry uint32
  | CannotEmpowerRandomProperties
  | ItemUpgradesInto uint32
  | ItemTransformsInto uint32
  | WhitelistEmptyOrMissing
  | NoEligibleEnchantmentsFound
  | EmpoweredWithModifiers nat uint32 uint32 uint32

text \<open>
  Every command the script issues to the server on behalf of the player, in the order of
  issue. \<open>EquipNewItem\<close> and \<open>StoreNewItem\<close> carry whether the server returned the
  new item (\<open>!= nullptr\<close>).
\<close>

datatype Call =
    DestroyItem uint8 uint8
  | EquipNewItem uint16 uint32 bool
  | StoreNewItem ItemPosCountVec uint32 int bool
  | DestroyItemCount uint32 uint32
  | UpdateDamagePhysical WeaponAttackType
  | SetVisibleItemSlot uint8
  | SendNotification Notification
  | SendEquipError_NONE
  | SendCastResult SpellCastResult

text \<open>
  The player: its guid, the live effects of enchantments currently applied to its stats
  (one occurrence of slot and enchantment id per application), and the commands issued.
\<close>

record Player =
  GetObjectGuid :: nat
  live :: "(EnchantmentSlot \<times> uint32) multiset"
  calls :: "Call list"

definition issue :: "Call \<Rightarrow> Player \<Rightarrow> Player" where
  "issue c player = player\<lparr>calls := calls player @ [c]\<rparr>"

text \<open>
  Modelled from the spec: \<open>Player::ApplyEnchantment(item, slot, apply)\<close> applies or
  removes "the live effect" of the enchantment a slot holds; an empty slot has none.
\<close>

definition ApplyEnchantment :: "Item \<Rightarrow> EnchantmentSlot \<Rightarrow> bool \<Rightarrow> Player \<Rightarrow> Player" where
  "ApplyEnchantment item slot apply player =
     (let ident = GetEnchantmentId item slot in
      if ident = 0 then player
      else if apply then player\<lparr>live := add_mset (slot, ident) (live player)\<rparr>
      else player\<lparr>live := live player - {#(slot, ident)#}\<rparr>)"

text \<open>
  Modelled from the spec: the Inventory Service, "validate-and-equip, validate-and-store,
  destroy-by-position, generate-random-property-id-for-new-instance; each validate
  operation returns a structured result distinguishing success from a named failure
  reason". The service's answers are parameters: each may depend on the player and on
  everything issued so far.
\<close>

record InventoryService =
  IsEquipmentPos :: "uint8 \<Rightarrow> uint8 \<Rightarrow> bool"
  IsInventoryPos :: "uint8 \<Rightarrow> uint8 \<Rightarrow> bool"
  CanEquipNewItem :: "Player \<Rightarrow> uint8 \<Rightarrow> uint32 \<Rightarrow> InventoryResult \<times> uint16"
  CanStoreNewItem :: "Player \<Rightarrow> uint8 option \<times> uint8 option \<Rightarrow> uint32 \<Rightarrow> InventoryResult \<times> ItemPosCountVec"
  EquipNewItem_returns :: "Player \<Rightarrow> uint16 \<Rightarrow> uint32 \<Rightarrow> bool"
  StoreNewItem_returns :: "Player \<Rightarrow> ItemPosCountVec \<Rightarrow> uint32 \<Rightarrow> bool"
  GenerateItemRandomPropertyId :: "uint32 \<Rightarrow> int"

text \<open>
  \<open>TryDowngradeItemInPlace\<close>. The result is the returned flag with the two out
  parameters (\<open>outFailReason\<close>, which the callers initialise to \<open>EQUIP_ERR_OK\<close>, and
  \<open>outWasEquipped\<close>), and the player after the commands issued. \<open>(None, None)\<close>
  is the position \<open>(NULL_BAG, NULL_SLOT)\<close>.
\<close>

definition TryDowngradeItemInPlace ::
  "InventoryService \<Rightarrow> Player \<Rightarrow> Item option \<Rightarrow> uint32
     \<Rightarrow> (bool \<times> InventoryResult \<times> bool) \<times> Player" where
  "TryDowngradeItemInPlace svc player targetItem newEntry =
     (case targetItem of
        None \<Rightarrow> ((False, EQUIP_ERR_OK, False), player)
      | Some item \<Rightarrow>
          if newEntry = 0 then ((False, EQUIP_ERR_OK, False), player)
          else
            let bag = GetBagSlot item;
                slot = GetSlot item;
                wasEquipped = IsEquipmentPos svc bag slot
            in
              if IsEquipmentPos svc bag slot then
                (let (msg, dest) = CanEquipNewItem svc player slot newEntry in
                 if msg \<noteq> EQUIP_ERR_OK then ((False, msg, wasEquipped), player)
                 else
                   let player1 = issue (DestroyItem bag slot) player;
                       got = EquipNewItem_returns svc player1 dest newEntry
                   in ((got, EQUIP_ERR_OK, wasEquipped),
                       issue (EquipNewItem dest newEntry got) player1))
              else if IsInventoryPos svc bag slot then
                (let (msg, destAny) = CanStoreNewItem svc player (None, None) newEntry in
                 if msg \<noteq> EQUIP_ERR_OK then ((False, msg, wasEquipped), player)
                 else
                   let player1 = issue (DestroyItem bag slot) player;
                       (msg2, destSame) = CanStoreNewItem svc player1 (Some bag, Some slot) newEntry;
                       dest = (if msg2 = EQUIP_ERR_OK then destSame else destAny);
                       got = StoreNewItem_returns svc player1 dest newEntry
                   in ((got, EQUIP_ERR_OK, wasEquipped),
                       issue (StoreNewItem dest newEntry
                                (GenerateItemRandomPropertyId svc newEntry) got) player1))
              else ((False, EQUIP_ERR_OK, wasEquipped), player))"

text \<open>The damage refresh both the clearing and the applying code run for an equipped item.\<close>

definition refreshDamage :: "Item \<Rightarrow> Player \<Rightarrow> Player" where
  "refreshDamage targetItem player =
     (if GetSlot targetItem = EQUIPMENT_SLOT_MAINHAND then issue (UpdateDamagePhysical BASE_ATTACK) player
      else if GetSlot targetItem = EQUIPMENT_SLOT_OFFHAND then issue (UpdateDamagePhysical OFF_ATTACK) player
      else if GetSlot targetItem = EQUIPMENT_SLOT_RANGED then issue (UpdateDamagePhysical RANGED_ATTACK) player
      else player)"

definition ClearSlamrockEnchants :: "Player \<Rightarrow> Item \<Rightarrow> Player \<times> Item" where
  "ClearSlamrockEnchants player targetItem =
     (let player1 =
            (if GetSlot targetItem < EQUIPMENT_SLOT_END then
               refreshDamage targetItem
                 (fold (\<lambda>slot. ApplyEnchantment targetItem slot False) SLAMROCK_ALL_PROP_SLOTS player)
             else player);
          item1 = fold ClearEnchantment SLAMROCK_ALL_PROP_SLOTS targetItem;
          item2 =
            (if GetEnchantmentId item1 PERM_ENCHANTMENT_SLOT = SLAMROCK_MARKER_ENCHANT_ID
             then ClearEnchantment PERM_ENCHANTMENT_SLOT item1 else item1);
          player2 =
            (if GetSlot item2 < EQUIPMENT_SLOT_END then issue (SetVisibleItemSlot (GetSlot item2)) player1
             else player1)
      in (player2, item2))"

text \<open>
  The applying code of the item-use hook (from "Apply marker + modifiers" to the last
  \<open>SetVisibleItemSlot\<close>). The loops over \<open>i < rolled.size() && i < SLAMROCK_MAX_MODIFIERS\<close>
  pair the modifier slots with the rolled ids, as \<open>zip\<close> does.
\<close>

definition ApplySlamrockEnchants :: "Player \<Rightarrow> Item \<Rightarrow> uint32 list \<Rightarrow> Player \<times> Item" where
  "ApplySlamrockEnchants pPlayer targetItem rolled =
     (let markerInPerm = (GetEnchantmentId targetItem PERM_ENCHANTMENT_SLOT = 0);
          item1 =
            (if markerInPerm
             then SetEnchantment PERM_ENCHANTMENT_SLOT SLAMROCK_MARKER_ENCHANT_ID targetItem
             else SetEnchantment SLAMROCK_MARKER_SLOT SLAMROCK_MARKER_ENCHANT_ID targetItem);
          item2 = fold (\<lambda>(slot, ident). SetEnchantment slot ident)
                    (zip SLAMROCK_MODIFIER_SLOTS rolled) item1;
          item3 = SetState_ITEM_CHANGED item2;
          player1 =
            (if GetSlot item3 < EQUIPMENT_SLOT_END then
               issue (SetVisibleItemSlot (GetSlot item3))
                 (refreshDamage item3
                    (fold (\<lambda>(slot, ident). ApplyEnchantment item3 slot True)
                       (zip SLAMROCK_MODIFIER_SLOTS rolled)
                       (ApplyEnchantment item3 SLAMROCK_MARKER_SLOT True pPlayer)))
             else pPlayer)
      in (player1, item3))"

section \<open>The item-use hook\<close>

record SlamrockWhitelistCache =
  attemptedLoad :: bool
  loaded :: bool
  weapon :: "SlamrockWhitelistRow list"
  armor :: "SlamrockWhitelistRow list"

text \<open>
  Modelled from the spec: the whitelist configuration source, of which "the core only ever
  reads enabled rows filtered by target-type flag": the rows each of the two queries
  returns, \<open>None\<close> for a null query result.
\<close>

record WorldDatabase =
  queryWeaponRows :: "SlamrockWhitelistRow list option"
  queryArmorRows :: "SlamrockWhitelistRow list option"

definition LoadWhitelistFromDB :: "WorldDatabase \<Rightarrow> SlamrockWhitelistCache \<Rightarrow> SlamrockWhitelistCache" where
  "LoadWhitelistFromDB db cache =
     cache\<lparr>weapon := (case queryWeaponRows db of None \<Rightarrow> [] | Some rows \<Rightarrow> rows),
           armor := (case queryArmorRows db of None \<Rightarrow> [] | Some rows \<Rightarrow> rows),
           loaded := True\<rparr>"

definition IsReasonableGearTarget :: "Item option \<Rightarrow> bool" where
  "IsReasonableGearTarget target =
     (case target of
        None \<Rightarrow> False
      | Some item \<Rightarrow>
          (case GetProto item of
             None \<Rightarrow> False
           | Some proto \<Rightarrow>
               InventoryType proto \<noteq> INVTYPE_NON_EQUIP \<and> InventoryType proto \<noteq> INVTYPE_BAG))"

definition IsWeaponTarget :: "Item option \<Rightarrow> bool" where
  "IsWeaponTarget target =
     (case target of
        None \<Rightarrow> False
      | Some item \<Rightarrow>
          (case GetProto item of None \<Rightarrow> False | Some proto \<Rightarrow> Class proto = ITEM_CLASS_WEAPON))"

text \<open>
  The modifier roll of the hook. First the count: \<open>urand(1, SLAMROCK_MAX_MODIFIERS)\<close>,
  set to 0 when a non-empty pool has no row that passes the tier test (the map
  \<open>groups\<close> of the source is only tested for emptiness; the model keeps its keys).
\<close>

definition drawModifierCount :: "SlamrockWhitelistRow list \<Rightarrow> uint32 \<Rightarrow> rng \<Rightarrow> uint32 \<times> rng" where
  "drawModifierCount pool itemLevel g =
     (let (modifierCount, g') = urand 1 SLAMROCK_MAX_MODIFIERS g;
          groups = map GetEffectiveGroupKey (filter (\<lambda>row. \<not> rowSkipped itemLevel row) pool)
      in if pool \<noteq> [] \<and> groups = [] then (0, g') else (modifierCount, g'))"

text \<open>
  Then \<open>while (rolled.size() < modifierCount)\<close>: a group from the sampler (called with
  the empty exclusion list \<open>noExclusions\<close>), a rank of that group, \<open>break\<close> when either
  fails.
\<close>

function rollLoop ::
  "SlamrockWhitelistRow list \<Rightarrow> uint32 \<Rightarrow> uint32 \<Rightarrow> uint32 list \<Rightarrow> rng \<Rightarrow> uint32 list \<times> rng" where
  "rollLoop pool itemLevel modifierCount rolled g =
     (if length rolled < unat modifierCount then
        (case PickWeightedGroupFromWhitelist pool itemLevel [] g of
           (None, g1) \<Rightarrow> (rolled, g1)
         | (Some key, g1) \<Rightarrow>
             (case PickRandomEligibleRankEnchantForGroup pool itemLevel key g1 of
                (None, g2) \<Rightarrow> (rolled, g2)
              | (Some picked, g2) \<Rightarrow> rollLoop pool itemLevel modifierCount (rolled @ [picked]) g2))
      else (rolled, g))"
  by pat_completeness auto

termination
  by (relation "measure (\<lambda>(pool, itemLevel, modifierCount, rolled, g). unat modifierCount - length rolled)")
    auto

declare rollLoop.simps [simp del]

definition rollModifiers ::
  "SlamrockWhitelistRow list \<Rightarrow> uint32 \<Rightarrow> rng \<Rightarrow> uint32 \<times> uint32 list \<times> rng" where
  "rollModifiers pool itemLevel g =
     (let (modifierCount, g1) = drawModifierCount pool itemLevel g in
      if modifierCount = 0 then (0, [], g1)
      else let (rolled, g2) = rollLoop pool itemLevel modifierCount [] g1
           in (modifierCount, rolled, g2))"

text \<open>
  The server as the hook sees it: the item catalog, the inventory service, the world
  database, and whether the targeting spell exists in the spell catalog.
\<close>

record Server =
  itemStorage :: ItemStorage
  inventoryService :: InventoryService
  worldDatabase :: WorldDatabase
  targetingSpell :: bool

text \<open>
  The return statement a run of the hook ends at (all of them return \<open>true\<close>).
\<close>

datatype Outcome =
    TargetRejected
  | Upgraded uint32
  | Downgraded uint32
  | WhitelistEmpty
  | NoEligibleEnchants
  | FailedToRoll
  | Empowered "uint32 list"

record ItemUseResult =
  outcome :: Outcome
  cacheAfter :: SlamrockWhitelistCache
  playerAfter :: Player
  targetAfter :: "Item option"
  rngAfter :: rng

text \<open>
  What every failing return does first: \<open>SendEquipError(EQUIP_ERR_NONE, pItem, nullptr)\<close>
  and, when the targeting spell exists, \<open>Spell::SendCastResult\<close>.
\<close>

definition sendFailure :: "Server \<Rightarrow> SpellCastResult \<Rightarrow> Player \<Rightarrow> Player" where
  "sendFailure server r player =
     (let player1 = issue SendEquipError_NONE player in
      if targetingSpell server then issue (SendCastResult r) player1 else player1)"

text \<open>
  The two swap attempts. Each returns the finished run when the swap succeeded, and
  otherwise the player and the random source the hook goes on with.
\<close>

definition upgradeAttempt ::
  "Server \<Rightarrow> SlamrockWhitelistCache \<Rightarrow> Player \<Rightarrow> Item \<Rightarrow> Item \<Rightarrow> rng
     \<Rightarrow> ItemUseResult + Player \<times> rng" where
  "upgradeAttempt server cache pPlayer pItem targetItem g =
     (let (chance, g1) = urand 1 100 g in
      if chance \<le> SLAMROCK_UPGRADE_CHANCE_PCT then
        (let (newEntry, g2) =
               PickUpgradeEntrySameClass (itemStorage server) (GetProto targetItem)
                 SLAMROCK_UPGRADE_MAX_ILVL_DELTA g1
         in
           if newEntry \<noteq> 0 then
             (let (r, player1) =
                    TryDowngradeItemInPlace (inventoryService server) pPlayer (Some targetItem) newEntry
              in
                if fst r then
                  Inl \<lparr>outcome = Upgraded newEntry, cacheAfter = cache,
                       playerAfter = issue (SendNotification (ItemUpgradesInto newEntry))
                                       (issue (DestroyItemCount (GetEntry pItem) 1) player1),
                       targetAfter = Some targetItem, rngAfter = g2\<rparr>
                else Inr (player1, g2))
           else Inr (pPlayer, g2))
      else Inr (pPlayer, g1))"

definition downgradeAttempt ::
  "Server \<Rightarrow> SlamrockWhitelistCache \<Rightarrow> Player \<Rightarrow> Item \<Rightarrow> Item \<Rightarrow> rng
     \<Rightarrow> ItemUseResult + Player \<times> rng" where
  "downgradeAttempt server cache pPlayer pItem targetItem g =
     (let (chance, g1) = urand 1 100 g in
      if chance \<le> SLAMROCK_DOWNGRADE_CHANCE_PCT then
        (let (newEntry, g2) = PickDowngradeEntry (itemStorage server) (GetProto targetItem) g1
         in
           if newEntry \<noteq> 0 then
             (let (r, player1) =
                    TryDowngradeItemInPlace (inventoryService server) pPlayer (Some targetItem) newEntry
              in
                if fst r then
                  Inl \<lparr>outcome = Downgraded newEntry, cacheAfter = cache,
                       playerAfter = issue (SendNotification (ItemTransformsInto newEntry))
                                       (issue (DestroyItemCount (GetEntry pItem) 1) player1),
                       targetAfter = Some targetItem, rngAfter = g2\<rparr>
                else Inr (player1, g2))
           else Inr (pPlayer, g2))
      else Inr (pPlayer, g1))"

text \<open>
  The lazy load of the whitelist (attempted once), the item level and the pool of the
  target's kind, as the hook computes them after the swap attempts.
\<close>

definition ensureWhitelistLoaded :: "Server \<Rightarrow> SlamrockWhitelistCache \<Rightarrow> SlamrockWhitelistCache" where
  "ensureWhitelistLoaded server cache =
     (if \<not> loaded cache \<and> \<not> attemptedLoad cache
      then LoadWhitelistFromDB (worldDatabase server) (cache\<lparr>attemptedLoad := True\<rparr>)
      else cache)"

definition targetItemLevel :: "Item \<Rightarrow> uint32" where
  "targetItemLevel targetItem =
     (case GetProto targetItem of None \<Rightarrow> 0 | Some proto \<Rightarrow> ItemLevel proto)"

definition targetPool :: "SlamrockWhitelistCache \<Rightarrow> Item \<Rightarrow> SlamrockWhitelistRow list" where
  "targetPool cache targetItem =
     (if IsWeaponTarget (Some targetItem) then weapon cache else armor cache)"

text \<open>
  The rest of the hook, from the lazy load of the whitelist to the final notification.
\<close>

definition empower ::
  "Server \<Rightarrow> SlamrockWhitelistCache \<Rightarrow> Player \<Rightarrow> Item \<Rightarrow> Item \<Rightarrow> rng \<Rightarrow> ItemUseResult" where
  "empower server cache0 pPlayer pItem targetItem g =
     (let cache = ensureWhitelistLoaded server cache0;
          itemLevel = targetItemLevel targetItem;
          pool = targetPool cache targetItem
      in
        if pool = [] then
          \<lparr>outcome = WhitelistEmpty, cacheAfter = cache,
           playerAfter = sendFailure server SPELL_FAILED_ERROR
                           (issue (SendNotification WhitelistEmptyOrMissing) pPlayer),
           targetAfter = Some targetItem, rngAfter = g\<rparr>
        else
          let (modifierCount, rolled, g1) = rollModifiers pool itemLevel g in
          if modifierCount = 0 then
            \<lparr>outcome = NoEligibleEnchants, cacheAfter = cache,
             playerAfter = sendFailure server SPELL_FAILED_ERROR
                             (issue (SendNotification NoEligibleEnchantmentsFound) pPlayer),
             targetAfter = Some targetItem, rngAfter = g1\<rparr>
          else if rolled = [] then
            \<lparr>outcome = FailedToRoll, cacheAfter = cache,
             playerAfter = sendFailure server SPELL_FAILED_ERROR
                             (issue (SendNotification NoEligibleEnchantmentsFound) pPlayer),
             targetAfter = Some targetItem, rngAfter = g1\<rparr>
          else
            let (player1, item1) = ClearSlamrockEnchants pPlayer targetItem;
                (player2, item2) = ApplySlamrockEnchants player1 item1 rolled;
                player3 = issue (DestroyItemCount (GetEntry pItem) 1) player2;
                e = (\<lambda>i. if i < length rolled then rolled ! i else 0)
            in \<lparr>outcome = Empowered rolled, cacheAfter = cache,
                playerAfter = issue (SendNotification
                                (EmpoweredWithModifiers (length rolled) (e 0) (e 1) (e 2))) player3,
                targetAfter = Some item2, rngAfter = g1\<rparr>)"

text \<open>
  \<open>ItemUse_item_slamrock\<close>, entered with a player and the used item (the null-pointer
  guard on them returns \<open>false\<close> before anything happens). Log lines are left out.
\<close>

definition ItemUse_item_slamrock ::
  "Server \<Rightarrow> SlamrockWhitelistCache \<Rightarrow> Player \<Rightarrow> Item \<Rightarrow> Item option \<Rightarrow> rng \<Rightarrow> ItemUseResult" where
  "ItemUse_item_slamrock server cache pPlayer pItem target g =
     (let player0 =
            (case target of
               None \<Rightarrow> issue (SendNotification NoItemTargetReceived) pPlayer
             | Some t \<Rightarrow> issue (SendNotification (TargetingItemEntry (GetEntry t))) pPlayer);
          rejected = (\<lambda>player.
            \<lparr>outcome = TargetRejected, cacheAfter = cache,
             playerAfter = sendFailure server SPELL_FAILED_BAD_TARGETS player,
             targetAfter = target, rngAfter = g\<rparr>)
      in
        case target of
          None \<Rightarrow> rejected player0
        | Some targetItem \<Rightarrow>
            if \<not> IsReasonableGearTarget target then rejected player0
            else if GetOwner targetItem \<noteq> Some (GetObjectGuid pPlayer) then rejected player0
            else if GetItemRandomPropertyId targetItem \<noteq> 0 then
              rejected (issue (SendNotification CannotEmpowerRandomProperties) player0)
            else
              (case upgradeAttempt server cache player0 pItem targetItem g of
                 Inl done \<Rightarrow> done
               | Inr (player1, g1) \<Rightarrow>
                   (case downgradeAttempt server cache player1 pItem targetItem g1 of
                      Inl done \<Rightarrow> done
                    | Inr (player2, g2) \<Rightarrow> empower server cache player2 pItem targetItem g2)))"

subsection \<open>The swap routine\<close>

text \<open>Whether the routine's pre-check passed for the position the target is at.\<close>

definition swapValidated :: "InventoryService \<Rightarrow> Player \<Rightarrow> Item \<Rightarrow> uint32 \<Rightarrow> bool" where
  "swapValidated svc player item newEntry \<longleftrightarrow>
     newEntry \<noteq> 0 \<and>
     (if IsEquipmentPos svc (GetBagSlot item) (GetSlot item)
      then fst (CanEquipNewItem svc player (GetSlot item) newEntry) = EQUIP_ERR_OK
      else IsInventoryPos svc (GetBagSlot item) (GetSlot item)
           \<and> fst (CanStoreNewItem svc player (None, None) newEntry) = EQUIP_ERR_OK)"

text \<open>A placement command for an entry, with the flag the server's answer gave it.\<close>

fun placesNewItem :: "Call \<Rightarrow> uint32 \<Rightarrow> bool \<Rightarrow> bool" where
  "placesNewItem (EquipNewItem dest entry got) newEntry flag \<longleftrightarrow> entry = newEntry \<and> got = flag"
| "placesNewItem (StoreNewItem dest entry rp got) newEntry flag \<longleftrightarrow> entry = newEntry \<and> got = flag"
| "placesNewItem c newEntry flag \<longleftrightarrow> False"

text \<open>
  An inventory service for a paper-doll item: every position is an equipment position,
  the pre-check for equipping passes with destination 15, and \<open>EquipNewItem\<close> returns
  the new item or not as the flag says.
\<close>

definition paperDoll :: "bool \<Rightarrow> InventoryService" where
  "paperDoll returnsItem =
     \<lparr>IsEquipmentPos = (\<lambda>bag slot. True),
      IsInventoryPos = (\<lambda>bag slot. False),
      CanEquipNewItem = (\<lambda>player slot entry. (EQUIP_ERR_OK, 15)),
      CanStoreNewItem = (\<lambda>player pos entry. (EQUIP_ERR_FAILURE 1, [])),
      EquipNewItem_returns = (\<lambda>player dest entry. returnsItem),
      StoreNewItem_returns = (\<lambda>player dest entry. False),
      GenerateItemRandomPropertyId = (\<lambda>entry. 0)\<rparr>"

text \<open>A service whose pre-checks fail: bag positions only, and no room.\<close>

definition fullBags :: InventoryService where
  "fullBags =
     \<lparr>IsEquipmentPos = (\<lambda>bag slot. False),
      IsInventoryPos = (\<lambda>bag slot. True),
      CanEquipNewItem = (\<lambda>player slot entry. (EQUIP_ERR_FAILURE 2, 0)),
      CanStoreNewItem = (\<lambda>player pos entry. (EQUIP_ERR_FAILURE 50, [])),
      EquipNewItem_returns = (\<lambda>player dest entry. False),
      StoreNewItem_returns = (\<lambda>player dest entry. False),
      GenerateItemRandomPropertyId = (\<lambda>entry. 0)\<rparr>"

definition hero :: Player where
  "hero = \<lparr>GetObjectGuid = 7, live = {#}, calls = []\<rparr>"

text \<open>The sword of tier 20, in the main hand of the hero, with no enchantment.\<close>

definition heroSword :: Item where
  "heroSword =
     \<lparr>GetEntry = 200, GetProto = Some (sword 200 20), GetOwner = Some 7,
      GetItemRandomPropertyId = 0, GetBagSlot = 255, GetSlot = 15,
      GetEnchantmentId = (\<lambda>slot. 0), changed = False\<rparr>"

subsection \<open>The slot reconciler\<close>

text \<open>Clear followed immediately by apply, as the hook runs them.\<close>

definition ClearThenApply :: "Player \<Rightarrow> Item \<Rightarrow> uint32 list \<Rightarrow> Player \<times> Item" where
  "ClearThenApply player item rolled =
     (let (player1, item1) = ClearSlamrockEnchants player item
      in ApplySlamrockEnchants player1 item1 rolled)"

text \<open>
  The item with the five slots the engine reserves (the permanent slot and the four
  property slots) empty, and the item with the slots the engine owns released: the
  property slots, and the permanent slot only when it holds the marker.
\<close>

definition emptySlots :: "Item \<Rightarrow> Item" where
  "emptySlots item =
     item\<lparr>GetEnchantmentId :=
       (\<lambda>slot. if slot = TEMP_ENCHANTMENT_SLOT then GetEnchantmentId item slot else 0)\<rparr>"

definition releasedSlots :: "Item \<Rightarrow> Item" where
  "releasedSlots item =
     item\<lparr>GetEnchantmentId :=
       (\<lambda>slot. if slot = TEMP_ENCHANTMENT_SLOT then GetEnchantmentId item slot
              else if slot = PERM_ENCHANTMENT_SLOT
                      \<and> GetEnchantmentId item slot \<noteq> SLAMROCK_MARKER_ENCHANT_ID
              then GetEnchantmentId item slot
              else 0)\<rparr>"

text \<open>The \<open>i\<close>-th rolled modifier, 0 (an empty slot) when fewer were rolled.\<close>

definition modifierAt :: "uint32 list \<Rightarrow> nat \<Rightarrow> uint32" where
  "modifierAt rolled i = (if i < length rolled then rolled ! i else 0)"

text \<open>
  The occupancy the spec's reconciler leaves, from the occupancy before and the rolled
  modifiers: the marker in the permanent slot if that slot is free (empty, or released
  because it held the marker), else in the first property slot; the modifiers in the
  next three property slots in order; the temporary slot as it was.
\<close>

definition reconciledSlots :: "(EnchantmentSlot \<Rightarrow> uint32) \<Rightarrow> uint32 list \<Rightarrow> EnchantmentSlot \<Rightarrow> uint32" where
  "reconciledSlots before rolled slot =
     (let permFree = (before PERM_ENCHANTMENT_SLOT = 0
                       \<or> before PERM_ENCHANTMENT_SLOT = SLAMROCK_MARKER_ENCHANT_ID)
      in case slot of
           PERM_ENCHANTMENT_SLOT \<Rightarrow>
             if permFree then SLAMROCK_MARKER_ENCHANT_ID else before PERM_ENCHANTMENT_SLOT
         | TEMP_ENCHANTMENT_SLOT \<Rightarrow> before TEMP_ENCHANTMENT_SLOT
         | PROP_ENCHANTMENT_SLOT_0 \<Rightarrow> if permFree then 0 else SLAMROCK_MARKER_ENCHANT_ID
         | PROP_ENCHANTMENT_SLOT_1 \<Rightarrow> modifierAt rolled 0
         | PROP_ENCHANTMENT_SLOT_2 \<Rightarrow> modifierAt rolled 1
         | PROP_ENCHANTMENT_SLOT_3 \<Rightarrow> modifierAt rolled 2)"

text \<open>
  The live effects an item's property slots account for when each occupied slot has been
  applied exactly once.
\<close>

definition propEffects :: "Item \<Rightarrow> (EnchantmentSlot \<times> uint32) multiset" where
  "propEffects item =
     mset (filter (\<lambda>(slot, ident). ident \<noteq> 0)
            (map (\<lambda>slot. (slot, GetEnchantmentId item slot)) SLAMROCK_ALL_PROP_SLOTS))"

text \<open>
  The hero's sword after an earlier application of two modifiers (marker in the permanent
  slot, modifiers 5 and 6), and the hero with their two live effects.
\<close>

definition slammedSword :: Item where
  "slammedSword =
     heroSword\<lparr>GetEnchantmentId :=
       (\<lambda>slot. if slot = PERM_ENCHANTMENT_SLOT then 900000
              else if slot = PROP_ENCHANTMENT_SLOT_1 then 5
              else if slot = PROP_ENCHANTMENT_SLOT_2 then 6 else 0)\<rparr>"

definition slammedHero :: Player where
  "slammedHero = hero\<lparr>live := {#(PROP_ENCHANTMENT_SLOT_1, 5), (PROP_ENCHANTMENT_SLOT_2, 6)#}\<rparr>"

text \<open>The hero's sword with a permanent enchantment (id 1234) of another system.\<close>

definition enchantedSword :: Item where
  "enchantedSword =
     heroSword\<lparr>GetEnchantmentId := (\<lambda>slot. if slot = PERM_ENCHANTMENT_SLOT then 1234 else 0)\<rparr>"

text \<open>The commands that consume an item of the player's by entry, and the failing returns.\<close>

fun isDestroyItemCount :: "Call \<Rightarrow> bool" where
  "isDestroyItemCount (DestroyItemCount entry n) = True"
| "isDestroyItemCount c = False"

fun isFailure :: "Outcome \<Rightarrow> bool" where
  "isFailure TargetRejected = True"
| "isFailure WhitelistEmpty = True"
| "isFailure NoEligibleEnchants = True"
| "isFailure FailedToRoll = True"
| "isFailure other = False"

fun isSwap :: "Outcome \<Rightarrow> bool" where
  "isSwap (Upgraded entry) = True"
| "isSwap (Downgraded entry) = True"
| "isSwap other = False"

text \<open>A target the hook accepts: present, gear, owned by the player, no random property.\<close>

definition targetAccepted :: "Player \<Rightarrow> Item option \<Rightarrow> bool" where
  "targetAccepted pPlayer target \<longleftrightarrow>
     (case target of
        None \<Rightarrow> False
      | Some t \<Rightarrow> IsReasonableGearTarget target
                  \<and> GetOwner t = Some (GetObjectGuid pPlayer)
                  \<and> GetItemRandomPropertyId t = 0)"

text \<open>
  A server with the sample catalog, the paper-doll service, a weapon whitelist of the two
  groups \<open>A\<close> and \<open>B\<close> and no armor whitelist; a cache not yet loaded; the used
  Slamrock item; and a shield of the hero's, in the off hand.
\<close>

definition realm :: Server where
  "realm =
     \<lparr>itemStorage = catalog, inventoryService = paperDoll True,
      worldDatabase = \<lparr>queryWeaponRows = Some poolAB, queryArmorRows = None\<rparr>,
      targetingSpell = True\<rparr>"

definition coldCache :: SlamrockWhitelistCache where
  "coldCache = \<lparr>attemptedLoad = False, loaded = False, weapon = [], armor = []\<rparr>"

definition slamrock :: Item where
  "slamrock =
     \<lparr>GetEntry = 51000, GetProto = None, GetOwner = Some 7, GetItemRandomPropertyId = 0,
      GetBagSlot = 255, GetSlot = 23, GetEnchantmentId = (\<lambda>slot. 0), changed = False\<rparr>"

definition heroShield :: Item where
  "heroShield =
     \<lparr>GetEntry = 500,
      GetProto = Some \<lparr>ItemId = 500, Class = 4, SubClass = 6, InventoryType = 14, ItemLevel = 20\<rparr>,
      GetOwner = Some 7, GetItemRandomPropertyId = 0, GetBagSlot = 255, GetSlot = 16,
      GetEnchantmentId = (\<lambda>slot. 0), changed = False\<rparr>"



subsection \<open>The modifier roll\<close>

text \<open>The pool of the spec's scenario: two groups of one row each, weight 10, any tier.\<close>

definition poolScenario :: "SlamrockWhitelistRow list" where
  "poolScenario =
     [\<lparr>enchantId = 1, groupKey = ''A'', rank = 1, minIlvl = 0, weight = 10\<rparr>,
      \<lparr>enchantId = 2, groupKey = ''B'', rank = 1, minIlvl = 0, weight = 10\<rparr>]"

section \<open>Properties\<close>


subsection \<open>The random source\<close>

lemma urand_range:
  assumes "lo \<le> hi"
  shows "lo \<le> fst (urand lo hi g) \<and> fst (urand lo hi g) \<le> hi"
proof (cases g)
  case Nil
  with assms show ?thesis by (simp add: urand_def)
next
  case (Cons r g')
  define k where "k = r mod (unat hi - unat lo + 1)"
  have le: "unat lo \<le> unat hi" using assms by (simp add: word_le_nat_alt)
  have k: "k \<le> unat hi - unat lo" unfolding k_def
    by (metis Suc_eq_plus1 less_Suc_eq_le mod_less_divisor zero_less_Suc)
  have hi: "unat hi < 2 ^ 32" using unsigned_less [of hi, where ?'a = nat] by simp
  have u: "unat (lo + of_nat k) = unat lo + k"
    using k le hi by (simp add: unat_word_ariths unat_of_nat)
  have "fst (urand lo hi g) = lo + of_nat k"
    by (simp add: urand_def Cons k_def)
  then show ?thesis using u k le by (simp add: word_le_nat_alt)
qed

lemma urand_hit:
  assumes "lo \<le> v" "v \<le> hi"
  shows "urand lo hi ((unat v - unat lo) # g) = (v, g)"
proof -
  have a: "unat lo \<le> unat v" "unat v \<le> unat hi"
    using assms by (simp_all add: word_le_nat_alt)
  then have "(unat v - unat lo) mod (unat hi - unat lo + 1) = unat v - unat lo"
    by simp
  moreover have "lo + of_nat (unat v - unat lo) = v"
    using a by (simp add: of_nat_diff)
  ultimately show ?thesis by (simp add: urand_def)
qed

lemma rankSkipped_iff:
  "rankSkipped itemLevel key row \<longleftrightarrow>
     \<not> (weight row > 0 \<and> ucast (minIlvl row) \<le> itemLevel \<and> GetEffectiveGroupKey row = key)"
  by (auto simp: rankSkipped_def rowSkipped_def word_gt_0 not_less)

lemma eligibleCount_fold:
  "fold (\<lambda>row n. if rankSkipped itemLevel key row then n else n + 1) pool c
     = c + of_nat (length (eligibleRows pool itemLevel key))"
  by (induction pool arbitrary: c) (auto simp: eligibleRows_def rankSkipped_iff add.assoc)

lemma eligibleCount_eq:
  "eligibleCount pool itemLevel key = of_nat (length (eligibleRows pool itemLevel key))"
  by (simp add: eligibleCount_def eligibleCount_fold)


lemma eligibleRows_Cons:
  "eligibleRows (row # rows) itemLevel key =
     (if rankSkipped itemLevel key row then eligibleRows rows itemLevel key
      else row # eligibleRows rows itemLevel key)"
  by (simp add: eligibleRows_def rankSkipped_iff)

lemma rankWalk_nth:
  assumes "unat seen + length (eligibleRows pool itemLevel key) < 2 ^ 32"
    and "seen < roll"
    and "unat roll \<le> unat seen + length (eligibleRows pool itemLevel key)"
  shows "rankWalk pool itemLevel key seen roll =
           Some (enchantId (eligibleRows pool itemLevel key ! (unat roll - unat seen - 1)))"
  using assms
proof (induction pool arbitrary: seen)
  case Nil
  then show ?case by (simp add: eligibleRows_def word_less_nat_alt)
next
  case (Cons row rows)
  show ?case
  proof (cases "rankSkipped itemLevel key row")
    case True
    with Cons show ?thesis by (simp add: eligibleRows_Cons)
  next
    case False
    let ?E = "eligibleRows rows itemLevel key"
    have E: "eligibleRows (row # rows) itemLevel key = row # ?E"
      using False by (simp add: eligibleRows_Cons)
    have bound: "unat seen + Suc (length ?E) < 2 ^ 32"
      using Cons.prems(1) E by simp
    then have "unat seen + unat (1 :: uint32) < 2 ^ LENGTH(32)" by simp
    then have seen': "unat (seen + 1) = unat seen + 1"
      using unat_add_lem [of seen 1] by simp
    have lt: "unat seen < unat roll" using Cons.prems(2) by (simp add: word_less_nat_alt)
    show ?thesis
    proof (cases "roll \<le> seen + 1")
      case True
      then have "unat roll \<le> unat seen + 1" using seen' by (simp add: word_le_nat_alt)
      with lt have "unat roll - unat seen - 1 = 0" by simp
      with True False E show ?thesis by simp
    next
      case F2: False
      then have gt: "seen + 1 < roll" by simp
      then have gt': "unat seen + 1 < unat roll" using seen' by (simp add: word_less_nat_alt)
      have "rankWalk rows itemLevel key (seen + 1) roll =
              Some (enchantId (?E ! (unat roll - unat (seen + 1) - 1)))"
      proof (rule Cons.IH [OF _ gt])
        show "unat (seen + 1) + length ?E < 2 ^ 32" using bound seen' by simp
        show "unat roll \<le> unat (seen + 1) + length ?E"
          using Cons.prems(3) E seen' by simp
      qed
      moreover have "(row # ?E) ! (unat roll - unat seen - 1) = ?E ! (unat roll - unat (seen + 1) - 1)"
        using gt' seen' by (simp add: nth_Cons')
      ultimately show ?thesis using False F2 E by simp
    qed
  qed
qed

lemma rank_pick_at:
  assumes small: "length (eligibleRows pool itemLevel key) < 2 ^ 32"
    and ne: "eligibleRows pool itemLevel key \<noteq> []"
  shows "PickRandomEligibleRankEnchantForGroup pool itemLevel key g =
           (Some (enchantId (eligibleRows pool itemLevel key !
              (unat (fst (urand 1 (eligibleCount pool itemLevel key) g)) - 1))),
            snd (urand 1 (eligibleCount pool itemLevel key) g))"
proof -
  let ?E = "eligibleRows pool itemLevel key"
  let ?n = "eligibleCount pool itemLevel key"
  have n: "unat ?n = length ?E"
    using small by (simp add: eligibleCount_eq unat_of_nat)
  have pos: "0 < length ?E" using ne by simp
  then have n0: "?n \<noteq> 0" using n by (metis less_numeral_extra(3) unat_0)
  have one_le: "1 \<le> ?n" using pos by (simp add: word_le_nat_alt n Suc_leI)
  let ?roll = "fst (urand 1 ?n g)"
  have r: "1 \<le> ?roll" "?roll \<le> ?n" using urand_range [OF one_le, of g] by simp_all
  have "rankWalk pool itemLevel key 0 ?roll = Some (enchantId (?E ! (unat ?roll - unat (0::uint32) - 1)))"
  proof (rule rankWalk_nth)
    show "unat (0::uint32) + length ?E < 2 ^ 32" using small by simp
    show "0 < ?roll" using r(1) by (simp add: word_less_nat_alt word_le_nat_alt)
    show "unat ?roll \<le> unat (0::uint32) + length ?E"
      using r(2) n by (simp add: word_le_nat_alt)
  qed
  then show ?thesis using n0
    by (simp add: PickRandomEligibleRankEnchantForGroup_def Let_def split_beta)
qed

lemma rank_pick_none:
  assumes "eligibleRows pool itemLevel key = []"
  shows "PickRandomEligibleRankEnchantForGroup pool itemLevel key g = (None, g)"
  using assms by (simp add: PickRandomEligibleRankEnchantForGroup_def eligibleCount_eq)

text \<open>
  Claim C6, for a group with fewer than \<open>2^32\<close> eligible rows. The rank picker fails
  exactly when the pool has no row with weight above zero, minimum tier at most the item's
  tier and the group key asked for. Otherwise it returns the enchantment id of an eligible
  row of that group; the raw draw \<open>i\<close> (below the number of eligible rows) returns the
  \<open>i\<close>-th eligible row in pool order, so each eligible row is returned by exactly one
  residue of the draw and a uniform draw picks each with probability one over their
  number. With exactly one eligible row, that row's id is returned whatever the draw.
\<close>

theorem rank_picker_uniform:
  assumes small: "length (eligibleRows pool itemLevel key) < 2 ^ 32"
  shows "(fst (PickRandomEligibleRankEnchantForGroup pool itemLevel key g) = None
            \<longleftrightarrow> eligibleRows pool itemLevel key = [])
       \<and> (eligibleRows pool itemLevel key \<noteq> [] \<longrightarrow>
            (\<exists>i < length (eligibleRows pool itemLevel key).
               fst (PickRandomEligibleRankEnchantForGroup pool itemLevel key g)
                 = Some (enchantId (eligibleRows pool itemLevel key ! i))))
       \<and> (\<forall>i < length (eligibleRows pool itemLevel key).
            PickRandomEligibleRankEnchantForGroup pool itemLevel key (i # g)
              = (Some (enchantId (eligibleRows pool itemLevel key ! i)), g))
       \<and> (\<forall>row. eligibleRows pool itemLevel key = [row] \<longrightarrow>
            fst (PickRandomEligibleRankEnchantForGroup pool itemLevel key g)
              = Some (enchantId row))"
proof -
  let ?E = "eligibleRows pool itemLevel key"
  let ?n = "eligibleCount pool itemLevel key"
  let ?P = "PickRandomEligibleRankEnchantForGroup pool itemLevel key"
  have n: "unat ?n = length ?E"
    using small by (simp add: eligibleCount_eq unat_of_nat)
  have idx: "unat (fst (urand 1 ?n h)) - 1 < length ?E" if "?E \<noteq> []" for h
  proof -
    have "0 < length ?E" using that by simp
    then have "1 \<le> ?n" by (simp add: word_le_nat_alt n Suc_leI)
    from urand_range [OF this, of h] have "unat (fst (urand 1 ?n h)) \<le> length ?E"
      and "1 \<le> unat (fst (urand 1 ?n h))"
      using n by (simp_all add: word_le_nat_alt)
    then show ?thesis by simp
  qed
  have a: "fst (?P g) = None \<longleftrightarrow> ?E = []"
  proof (cases "?E = []")
    case True
    then show ?thesis by (simp add: rank_pick_none)
  next
    case False
    then show ?thesis by (simp add: rank_pick_at [OF small False])
  qed
  have b: "\<exists>i < length ?E. fst (?P g) = Some (enchantId (?E ! i))" if "?E \<noteq> []"
    using idx [OF that, of g] rank_pick_at [OF small that, of g] by auto
  have c: "?P (i # g) = (Some (enchantId (?E ! i)), g)" if i: "i < length ?E" for i
  proof -
    have ne: "?E \<noteq> []" using i by auto
    let ?v = "of_nat (Suc i) :: uint32"
    have v: "unat ?v = Suc i" using i small by (simp add: unat_of_nat del: of_nat_Suc)
    have "1 \<le> ?v" "?v \<le> ?n" using v n i by (simp_all add: word_le_nat_alt del: of_nat_Suc)
    from urand_hit [OF this, of g] have "urand 1 ?n (i # g) = (?v, g)" using v by simp
    with rank_pick_at [OF small ne, of "i # g"] v show ?thesis by simp
  qed
  have d: "fst (?P g) = Some (enchantId row)" if "?E = [row]" for row
  proof -
    have "?E \<noteq> []" using that by simp
    from b [OF this] that show ?thesis by auto
  qed
  from a b c d show ?thesis by blast
qed



lemma pool6_eligible_A:
  "eligibleRows pool6 30 ''A'' =
     [\<lparr>enchantId = 11, groupKey = ''A'', rank = 1, minIlvl = 0, weight = 5\<rparr>,
      \<lparr>enchantId = 12, groupKey = ''A'', rank = 2, minIlvl = 20, weight = 9\<rparr>]"
  by code_simp

lemma pool6_eligible_77:
  "eligibleRows pool6 30 ''77'' =
     [\<lparr>enchantId = 77, groupKey = [], rank = 1, minIlvl = 0, weight = 10\<rparr>]"
  by code_simp

text \<open>
  The theorem at the sample pool, tier 30: group \<open>A\<close> has two eligible rows (the third
  needs tier 60, the fourth is disabled), the self-grouped row 77 is alone in its group.
\<close>

theorem rank_picker_uniform_witness:
  "length (eligibleRows pool6 30 ''A'') < 2 ^ 32
   \<and> fst (PickRandomEligibleRankEnchantForGroup pool6 30 ''A'' [7]) \<noteq> None
   \<and> PickRandomEligibleRankEnchantForGroup pool6 30 ''A'' [0, 7] = (Some 11, [7])
   \<and> PickRandomEligibleRankEnchantForGroup pool6 30 ''A'' [1, 7] = (Some 12, [7])
   \<and> fst (PickRandomEligibleRankEnchantForGroup pool6 30 ''77'' [7]) = Some 77"
proof -
  have h: "length (eligibleRows pool6 30 ''A'') < 2 ^ 32"
    by (simp add: pool6_eligible_A)
  have h2: "length (eligibleRows pool6 30 ''77'') < 2 ^ 32"
    by (simp add: pool6_eligible_77)
  note A = rank_picker_uniform [OF h, of "[7]"]
  note B = rank_picker_uniform [OF h2, of "[7]"]
  have a: "fst (PickRandomEligibleRankEnchantForGroup pool6 30 ''A'' [7]) \<noteq> None"
    using A by (simp add: pool6_eligible_A)
  have c: "i < 2 \<Longrightarrow> PickRandomEligibleRankEnchantForGroup pool6 30 ''A'' [i, 7]
             = (Some (enchantId (eligibleRows pool6 30 ''A'' ! i)), [7])" for i
    using A by (simp add: pool6_eligible_A)
  have d: "fst (PickRandomEligibleRankEnchantForGroup pool6 30 ''77'' [7]) = Some 77"
    using B by (simp add: pool6_eligible_77)
  show ?thesis
    using h a c [of 0] c [of 1] d by (simp add: pool6_eligible_A)
qed

text \<open>
  Claim C6 as stated ("for every pool") fails where the \<open>uint32\<close> counter wraps: in a
  pool of \<open>2^32\<close> eligible rows of one group \<open>eligibleCount\<close> is 0 again and the
  picker reports failure although every row is eligible.
\<close>

theorem rank_picker_counter_wraps:
  "fst (PickRandomEligibleRankEnchantForGroup (replicate (2 ^ 32) bigRow) 0 ''A'' []) = None
   \<and> eligibleRows (replicate (2 ^ 32) bigRow) 0 ''A'' = replicate (2 ^ 32) bigRow
   \<and> replicate (2 ^ 32) bigRow \<noteq> []"
proof -
  have e: "eligibleRows (replicate n bigRow) 0 ''A'' = replicate n bigRow" for n
    by (simp add: eligibleRows_def bigRow_def GetEffectiveGroupKey_def)
  have "eligibleCount (replicate (2 ^ 32) bigRow) 0 ''A'' = 0"
    by (simp add: eligibleCount_eq e)
  then show ?thesis
    by (simp add: PickRandomEligibleRankEnchantForGroup_def e)
qed

subsection \<open>group weights map\<close>

lemma groupWeightsPut_keys:
  "set (map fst (groupWeightsPut key w gw)) = insert key (set (map fst gw))"
  by (induction key w gw rule: groupWeightsPut.induct) auto

lemma groupWeightsPut_sorted:
  "sorted (map fst gw) \<Longrightarrow> distinct (map fst gw) \<Longrightarrow>
     sorted (map fst (groupWeightsPut key w gw)) \<and> distinct (map fst (groupWeightsPut key w gw))"
proof (induction key w gw rule: groupWeightsPut.induct)
  case (1 key w)
  then show ?case by simp
next
  case (2 key w k v kvs)
  show ?case
  proof (cases "key = k")
    case True
    with 2 show ?thesis by simp
  next
    case False
    show ?thesis
    proof (cases "key < k")
      case True
      with 2 False show ?thesis by (auto simp: less_imp_le dest: order_trans [OF less_imp_le])
    next
      case F: False
      with False have "k < key" by simp
      with 2 False F show ?thesis
        by (auto simp: groupWeightsPut_keys less_imp_le simp del: set_map)
    qed
  qed
qed

lemma groupWeightsPut_map_of:
  "sorted (map fst gw) \<Longrightarrow> distinct (map fst gw) \<Longrightarrow>
   map_of (groupWeightsPut key w gw) =
     (map_of gw)(key \<mapsto> (case map_of gw key of None \<Rightarrow> w | Some v \<Rightarrow> max v w))"
proof (induction key w gw rule: groupWeightsPut.induct)
  case (1 key w)
  then show ?case by simp
next
  case (2 key w k v kvs)
  show ?case
  proof (cases "key = k")
    case True
    then show ?thesis by (auto simp: max_def not_less)
  next
    case False
    show ?thesis
    proof (cases "key < k")
      case True
      have "map_of kvs key = None"
      proof (rule ccontr)
        assume "map_of kvs key \<noteq> None"
        then have "key \<in> fst ` set kvs" by (simp add: map_of_eq_None_iff)
        with 2(2) have "k \<le> key" by auto
        with True show False by simp
      qed
      with True False show ?thesis by auto
    next
      case F: False
      with 2 False show ?thesis by (auto simp: fun_upd_twist)
    qed
  qed
qed

lemma groupWeightsStep_inv:
  "sorted (map fst gw) \<Longrightarrow> distinct (map fst gw) \<Longrightarrow>
     sorted (map fst (groupWeightsStep itemLevel ex row gw))
     \<and> distinct (map fst (groupWeightsStep itemLevel ex row gw))"
  using groupWeightsPut_sorted by (simp add: groupWeightsStep_def Let_def)

lemma groupWeights_fold_inv:
  "sorted (map fst gw) \<Longrightarrow> distinct (map fst gw) \<Longrightarrow>
     sorted (map fst (fold (groupWeightsStep itemLevel ex) pool gw))
     \<and> distinct (map fst (fold (groupWeightsStep itemLevel ex) pool gw))"
proof (induction pool arbitrary: gw)
  case Nil
  then show ?case by simp
next
  case (Cons row rows)
  from groupWeightsStep_inv [OF Cons.prems, of itemLevel ex row]
  show ?case using Cons.IH by simp
qed

lemma groupWeights_sorted: "sorted (map fst (groupWeights pool itemLevel ex))"
  and groupWeights_distinct: "distinct (map fst (groupWeights pool itemLevel ex))"
  using groupWeights_fold_inv [of "[]" itemLevel ex pool] by (simp_all add: groupWeights_def)

lemma list_ex_eq: "list_ex (\<lambda>ex. ex = key) xs \<longleftrightarrow> key \<in> set xs"
  by (auto simp: list_ex_iff)

lemma groupWeightsStep_map_of:
  assumes "sorted (map fst gw)" "distinct (map fst gw)"
  shows "map_of (groupWeightsStep itemLevel ex row gw) k =
     (if \<not> rankSkipped itemLevel k row \<and> k \<notin> set ex
      then entryAfter (map_of gw k) (ucast (weight row)) else map_of gw k)"
  using groupWeightsPut_map_of [OF assms]
  by (auto simp: groupWeightsStep_def rankSkipped_def Let_def list_ex_eq entryAfter_def)

lemma groupWeights_fold_map_of:
  assumes "sorted (map fst gw)" "distinct (map fst gw)"
  shows "map_of (fold (groupWeightsStep itemLevel ex) pool gw) k =
     (if k \<in> set ex then map_of gw k
      else fold (\<lambda>row e. entryAfter e (ucast (weight row))) (eligibleRows pool itemLevel k) (map_of gw k))"
  using assms
proof (induction pool arbitrary: gw)
  case Nil
  then show ?case by (simp add: eligibleRows_def)
next
  case (Cons row rows)
  note inv = groupWeightsStep_inv [OF Cons.prems, of itemLevel ex row]
  show ?case
    using Cons.IH [OF inv [THEN conjunct1] inv [THEN conjunct2]]
      groupWeightsStep_map_of [OF Cons.prems, of itemLevel ex row k]
    by (simp add: eligibleRows_Cons)
qed

lemma fold_entryAfter_Some:
  "fold (\<lambda>row e. entryAfter e (f row)) rows (Some v) = Some (fold max (map f rows) v)"
  by (induction rows arbitrary: v) (simp_all add: entryAfter_def max.commute)

lemma fold_entryAfter_None:
  "fold (\<lambda>row e. entryAfter e (f row)) rows None =
     (if rows = [] then None else Some (Max (set (map f rows))))"
proof (cases rows)
  case Nil
  then show ?thesis by simp
next
  case (Cons row rs)
  have "entryAfter None (f row) = Some (f row)" by (simp add: entryAfter_def)
  then have "fold (\<lambda>row e. entryAfter e (f row)) rows None = Some (fold max (map f rs) (f row))"
    by (simp add: Cons fold_entryAfter_Some)
  also have "fold max (map f rs) (f row) = Max (set (map f rows))"
    using Max.set_eq_fold [of "f row" "map f rs"] by (simp add: Cons)
  finally show ?thesis using Cons by simp
qed

lemma unat_ucast_weight: "unat (ucast (a :: uint16) :: uint32) = unat a"
proof -
  have "unat a < 2 ^ 16" using unsigned_less [of a, where ?'a = nat] by simp
  then have "unat a < 2 ^ 32" by simp
  then show ?thesis by (simp add: unsigned_ucast_eq take_bit_nat_eq_self)
qed

lemma ucast_weight_mono: "(ucast (a :: uint16) :: uint32) \<le> ucast b \<longleftrightarrow> a \<le> b"
  by (simp add: word_le_nat_alt unat_ucast_weight)

lemma ucast_weight_Max:
  assumes "ws \<noteq> []"
  shows "Max (set (map (\<lambda>w. ucast (w :: uint16) :: uint32) ws)) = ucast (Max (set ws))"
proof -
  have "mono (\<lambda>w. ucast (w :: uint16) :: uint32)"
    by (simp add: mono_def ucast_weight_mono)
  from mono_Max_commute [OF this, of "set ws"] assms show ?thesis by simp
qed

theorem groupWeights_entry:
  "map_of (groupWeights pool itemLevel ex) k =
     (if k \<in> set ex \<or> eligibleRows pool itemLevel k = [] then None
      else Some (ucast (Max (set (map weight (eligibleRows pool itemLevel k))))))"
proof -
  let ?E = "eligibleRows pool itemLevel k"
  have "map_of (groupWeights pool itemLevel ex) k =
      (if k \<in> set ex then None
       else fold (\<lambda>row e. entryAfter e (ucast (weight row))) ?E None)"
    using groupWeights_fold_map_of [of "[]" itemLevel ex pool k] by (simp add: groupWeights_def)
  also have "\<dots> = (if k \<in> set ex \<or> ?E = [] then None
      else Some (Max (set (map (\<lambda>w. ucast w) (map weight ?E)))))"
    by (simp add: fold_entryAfter_None comp_def)
  also have "\<dots> = (if k \<in> set ex \<or> ?E = [] then None
      else Some (ucast (Max (set (map weight ?E)))))"
    using ucast_weight_Max [of "map weight ?E"] by simp
  finally show ?thesis .
qed

lemma totalWeight_fold:
  "fold (\<lambda>kv total. total + snd kv) gw a = a + sum_list (map snd gw)"
  by (induction gw arbitrary: a) (simp_all add: add.assoc)

lemma totalWeight_sum: "totalWeight gw = sum_list (map snd gw)"
  by (simp add: totalWeight_def totalWeight_fold)

lemma groupWalk_None:
  "gw \<noteq> [] \<Longrightarrow> groupWalk gw running roll = None \<Longrightarrow>
     \<not> roll \<le> running + sum_list (map snd gw)"
proof (induction gw arbitrary: running)
  case Nil
  then show ?case by simp
next
  case (Cons kv kvs)
  obtain k v where kv: "kv = (k, v)" by (cases kv)
  from Cons.prems(2) have n1: "\<not> roll \<le> running + v"
    and n2: "groupWalk kvs (running + v) roll = None"
    by (auto simp: kv Let_def split: if_splits)
  show ?case
  proof (cases "kvs = []")
    case True
    with n1 show ?thesis by (simp add: kv)
  next
    case False
    from Cons.IH [OF False n2] show ?thesis by (simp add: kv add.assoc)
  qed
qed

lemma groupWalk_Some_key:
  "groupWalk gw running roll = Some k \<Longrightarrow> k \<in> fst ` set gw"
  by (induction gw running roll rule: groupWalk.induct) (auto simp: Let_def split: if_splits)

lemma groupWalk_total:
  assumes "roll \<le> totalWeight gw" "gw \<noteq> []"
  shows "\<exists>k. groupWalk gw 0 roll = Some k \<and> k \<in> fst ` set gw"
proof (cases "groupWalk gw 0 roll")
  case None
  from groupWalk_None [OF assms(2) None] assms(1) show ?thesis
    by (simp add: totalWeight_sum)
next
  case (Some k)
  with groupWalk_Some_key [OF Some] show ?thesis by simp
qed

lemma totalWeight_Nil: "totalWeight [] = 0"
  by (simp add: totalWeight_def)

lemma pick_group_None_iff:
  "fst (PickWeightedGroupFromWhitelist pool itemLevel ex g) = None
     \<longleftrightarrow> totalWeight (groupWeights pool itemLevel ex) = 0"
proof (cases "totalWeight (groupWeights pool itemLevel ex) = 0")
  case True
  then show ?thesis by (simp add: PickWeightedGroupFromWhitelist_def)
next
  case False
  let ?gw = "groupWeights pool itemLevel ex"
  from False have ne: "?gw \<noteq> []" using totalWeight_Nil by auto
  from False have "1 \<le> totalWeight ?gw"
    by (metis word_le_nat_alt unat_1 unat_gt_0 Suc_leI One_nat_def)
  from urand_range [OF this, of g] have "fst (urand 1 (totalWeight ?gw) g) \<le> totalWeight ?gw"
    by simp
  from groupWalk_total [OF this ne] False ne show ?thesis
    by (auto simp: PickWeightedGroupFromWhitelist_def Let_def split_beta)
qed

lemma groupWeights_key_iff:
  "k \<in> fst ` set (groupWeights pool itemLevel ex)
     \<longleftrightarrow> k \<notin> set ex \<and> eligibleRows pool itemLevel k \<noteq> []"
proof -
  have "k \<in> fst ` set (groupWeights pool itemLevel ex)
          \<longleftrightarrow> map_of (groupWeights pool itemLevel ex) k \<noteq> None"
    by (simp add: map_of_eq_None_iff)
  then show ?thesis by (simp add: groupWeights_entry)
qed

lemma eligibleRows_ne_iff:
  "eligibleRows pool itemLevel k \<noteq> [] \<longleftrightarrow>
     (\<exists>row \<in> set pool. \<not> rowSkipped itemLevel row \<and> GetEffectiveGroupKey row = k)"
  by (auto simp: eligibleRows_def filter_empty_conv rowSkipped_def word_gt_0 not_less)

lemma groupWeights_Nil_iff:
  "groupWeights pool itemLevel ex = [] \<longleftrightarrow>
     \<not> (\<exists>row \<in> set pool. \<not> rowSkipped itemLevel row \<and> GetEffectiveGroupKey row \<notin> set ex)"
proof -
  have "groupWeights pool itemLevel ex = [] \<longleftrightarrow> fst ` set (groupWeights pool itemLevel ex) = {}"
    by simp
  also have "\<dots> \<longleftrightarrow> (\<forall>k. \<not> (k \<notin> set ex \<and> eligibleRows pool itemLevel k \<noteq> []))"
    by (metis groupWeights_key_iff all_not_in_conv)
  also have "\<dots> \<longleftrightarrow> \<not> (\<exists>row \<in> set pool. \<not> rowSkipped itemLevel row \<and> GetEffectiveGroupKey row \<notin> set ex)"
    by (auto simp: eligibleRows_ne_iff)
  finally show ?thesis .
qed

lemma groupWeights_value:
  assumes "(k, v) \<in> set (groupWeights pool itemLevel ex)"
  shows "0 < unat v \<and> unat v \<le> 65535"
proof -
  let ?E = "eligibleRows pool itemLevel k"
  from assms groupWeights_distinct [of pool itemLevel ex]
  have "map_of (groupWeights pool itemLevel ex) k = Some v" by simp
  with groupWeights_entry [of pool itemLevel ex k]
  have ne: "?E \<noteq> []" and v: "v = ucast (Max (set (map weight ?E)))"
    by (auto split: if_splits)
  from ne have "Max (set (map weight ?E)) \<in> set (map weight ?E)"
    by (intro Max_in) simp_all
  then obtain row where "row \<in> set ?E" "Max (set (map weight ?E)) = weight row" by auto
  then have "0 < weight row" and vr: "v = ucast (weight row)"
    using v by (simp_all add: eligibleRows_def)
  then have "0 < unat (weight row)" by (simp add: word_less_nat_alt)
  moreover have "unat (weight row) < 2 ^ 16"
    using unsigned_less [of "weight row", where ?'a = nat] by simp
  ultimately show ?thesis by (simp add: vr unat_ucast_weight)
qed

lemma groupWeightsPut_length: "length (groupWeightsPut key w gw) \<le> Suc (length gw)"
  by (induction key w gw rule: groupWeightsPut.induct) auto

lemma groupWeights_fold_length:
  "length (fold (groupWeightsStep itemLevel ex) pool gw) \<le> length gw + length pool"
proof (induction pool arbitrary: gw)
  case Nil
  then show ?case by simp
next
  case (Cons row rows)
  have "length (groupWeightsStep itemLevel ex row gw) \<le> Suc (length gw)"
    using groupWeightsPut_length [of "GetEffectiveGroupKey row" "ucast (weight row)" gw]
    by (simp add: groupWeightsStep_def Let_def)
  with Cons [of "groupWeightsStep itemLevel ex row gw"] show ?case by simp
qed

lemma groupWeights_length: "length (groupWeights pool itemLevel ex) \<le> length pool"
  using groupWeights_fold_length [of itemLevel ex pool "[]"] by (simp add: groupWeights_def)

lemma unat_sum_list:
  fixes ws :: "uint32 list"
  assumes "sum_list (map unat ws) < 2 ^ 32"
  shows "unat (sum_list ws) = sum_list (map unat ws)"
  using assms
proof (induction ws)
  case Nil
  then show ?case by simp
next
  case (Cons w ws)
  then have "unat (sum_list ws) = sum_list (map unat ws)" by simp
  moreover from Cons.prems have "unat w + sum_list (map unat ws) < 2 ^ LENGTH(32)" by simp
  ultimately show ?case using unat_add_lem [of w "sum_list ws"] by simp
qed

lemma sum_list_bounded:
  fixes f :: "'a \<Rightarrow> nat"
  assumes "\<And>x. x \<in> set xs \<Longrightarrow> f x \<le> b"
  shows "sum_list (map f xs) \<le> length xs * b"
  using assms by (induction xs) (simp_all add: add_mono)

lemma totalWeight_no_wrap:
  assumes "length pool \<le> 65537"
  shows "unat (totalWeight (groupWeights pool itemLevel ex))
           = sum_list (map (unat \<circ> snd) (groupWeights pool itemLevel ex))"
proof -
  let ?gw = "groupWeights pool itemLevel ex"
  have "sum_list (map (unat \<circ> snd) ?gw) \<le> length ?gw * 65535"
  proof (rule sum_list_bounded)
    fix kv assume "kv \<in> set ?gw"
    then show "(unat \<circ> snd) kv \<le> 65535"
      using groupWeights_value [of "fst kv" "snd kv" pool itemLevel ex] by simp
  qed
  also have "\<dots> \<le> 65537 * 65535"
    using groupWeights_length [of pool itemLevel ex] assms by simp
  finally have "sum_list (map unat (map snd ?gw)) < 2 ^ 32" by (simp add: comp_def)
  from unat_sum_list [OF this] show ?thesis by (simp add: totalWeight_sum comp_def)
qed

lemma totalWeight_zero_iff:
  assumes "length pool \<le> 65537"
  shows "totalWeight (groupWeights pool itemLevel ex) = 0
           \<longleftrightarrow> groupWeights pool itemLevel ex = []"
proof
  let ?gw = "groupWeights pool itemLevel ex"
  assume "totalWeight ?gw = 0"
  then have z: "sum_list (map (unat \<circ> snd) ?gw) = 0"
    using totalWeight_no_wrap [OF assms, of itemLevel ex] by simp
  show "?gw = []"
  proof (rule ccontr)
    assume "?gw \<noteq> []"
    then obtain kv where kv: "kv \<in> set ?gw" by (cases ?gw) auto
    with z have "unat (snd kv) = 0" by (simp add: sum_list_eq_0_iff)
    moreover have "0 < unat (snd kv)"
      using groupWeights_value [of "fst kv" "snd kv" pool itemLevel ex] kv by simp
    ultimately show False by simp
  qed
next
  assume "groupWeights pool itemLevel ex = []"
  then show "totalWeight (groupWeights pool itemLevel ex) = 0" by (simp add: totalWeight_Nil)
qed

lemma pick_group_positive:
  assumes "0 < totalWeight (groupWeights pool itemLevel ex)"
  shows "(\<exists>k. fst (PickWeightedGroupFromWhitelist pool itemLevel ex g) = Some k
             \<and> k \<notin> set ex
             \<and> (\<exists>row \<in> set pool. \<not> rowSkipped itemLevel row \<and> GetEffectiveGroupKey row = k))
         \<and> (\<exists>row \<in> set pool. \<not> rowSkipped itemLevel row \<and> GetEffectiveGroupKey row \<notin> set ex)"
proof -
  let ?gw = "groupWeights pool itemLevel ex"
  let ?T = "totalWeight ?gw"
  from assms have nz: "?T \<noteq> 0" by simp
  then have ne: "?gw \<noteq> []" using totalWeight_Nil by auto
  from assms have "1 \<le> ?T" by (simp add: word_le_nat_alt word_less_nat_alt Suc_leI)
  from urand_range [OF this, of g] have "fst (urand 1 ?T g) \<le> ?T" by simp
  from groupWalk_total [OF this ne] obtain k where
    k: "groupWalk ?gw 0 (fst (urand 1 ?T g)) = Some k" "k \<in> fst ` set ?gw" by blast
  from k(1) nz ne have p: "fst (PickWeightedGroupFromWhitelist pool itemLevel ex g) = Some k"
    by (simp add: PickWeightedGroupFromWhitelist_def Let_def split_beta)
  from k(2) have e: "k \<notin> set ex" "eligibleRows pool itemLevel k \<noteq> []"
    by (simp_all add: groupWeights_key_iff)
  from e(2) obtain row where "row \<in> set pool" "\<not> rowSkipped itemLevel row" "GetEffectiveGroupKey row = k"
    unfolding eligibleRows_ne_iff by blast
  with p e(1) show ?thesis by blast
qed

text \<open>
  Claim C10. For every pool, item tier and exclusion list for which the sampler computes
  a positive total weight: the draw \<open>urand(1, totalWeight)\<close> lies in \<open>[1, totalWeight]\<close>,
  and for every draw in that interval the cumulative walk selects a group of the map
  (also when the \<open>uint32\<close> total has wrapped around), so the \<open>return false\<close> after the
  walk is never reached. The sampler then returns a group, one that is not excluded and
  has a row with weight above zero and minimum tier at most the item's tier; so it
  succeeds if and only if such a row of a group that is not excluded exists. In
  addition: the sampler fails exactly when the total is zero, and for a pool of at most
  65537 rows (where the total cannot wrap) the equivalence holds whatever the total.
\<close>

theorem group_walk_never_falls_through:
  "(0 < totalWeight (groupWeights pool itemLevel ex) \<longrightarrow>
      (\<forall>roll. 1 \<le> roll \<and> roll \<le> totalWeight (groupWeights pool itemLevel ex) \<longrightarrow>
         (\<exists>k. groupWalk (groupWeights pool itemLevel ex) 0 roll = Some k
              \<and> k \<in> fst ` set (groupWeights pool itemLevel ex)))
      \<and> 1 \<le> fst (urand 1 (totalWeight (groupWeights pool itemLevel ex)) g)
      \<and> fst (urand 1 (totalWeight (groupWeights pool itemLevel ex)) g)
           \<le> totalWeight (groupWeights pool itemLevel ex)
      \<and> (\<exists>k. fst (PickWeightedGroupFromWhitelist pool itemLevel ex g) = Some k
             \<and> k \<notin> set ex
             \<and> (\<exists>row \<in> set pool. \<not> rowSkipped itemLevel row \<and> GetEffectiveGroupKey row = k))
      \<and> (fst (PickWeightedGroupFromWhitelist pool itemLevel ex g) \<noteq> None
           \<longleftrightarrow> (\<exists>row \<in> set pool. \<not> rowSkipped itemLevel row
                  \<and> GetEffectiveGroupKey row \<notin> set ex)))
   \<and> (fst (PickWeightedGroupFromWhitelist pool itemLevel ex g) = None
      \<longleftrightarrow> totalWeight (groupWeights pool itemLevel ex) = 0)
   \<and> (length pool \<le> 65537 \<longrightarrow>
        (fst (PickWeightedGroupFromWhitelist pool itemLevel ex g) \<noteq> None
           \<longleftrightarrow> (\<exists>row \<in> set pool. \<not> rowSkipped itemLevel row
                  \<and> GetEffectiveGroupKey row \<notin> set ex)))"
proof -
  let ?gw = "groupWeights pool itemLevel ex"
  let ?T = "totalWeight ?gw"
  have a: "fst (PickWeightedGroupFromWhitelist pool itemLevel ex g) = None \<longleftrightarrow> ?T = 0"
    by (rule pick_group_None_iff)
  have b: "\<exists>k. groupWalk ?gw 0 roll = Some k \<and> k \<in> fst ` set ?gw"
    if "1 \<le> roll" "roll \<le> ?T" for roll
  proof -
    from that have "?T \<noteq> 0"
      by (metis word_le_nat_alt unat_1 unat_0 not_one_le_zero le_trans)
    then have "?gw \<noteq> []" using totalWeight_Nil by auto
    from groupWalk_total [OF that(2) this] show ?thesis .
  qed
  have c: "fst (PickWeightedGroupFromWhitelist pool itemLevel ex g) \<noteq> None
           \<longleftrightarrow> (\<exists>row \<in> set pool. \<not> rowSkipped itemLevel row
                  \<and> GetEffectiveGroupKey row \<notin> set ex)"
    if "length pool \<le> 65537"
    using a totalWeight_zero_iff [OF that, of itemLevel ex] groupWeights_Nil_iff [of pool itemLevel ex]
    by simp
  have d: "1 \<le> fst (urand 1 ?T g) \<and> fst (urand 1 ?T g) \<le> ?T" if "0 < ?T"
  proof -
    from that have "1 \<le> ?T" by (simp add: word_le_nat_alt word_less_nat_alt Suc_leI)
    from urand_range [OF this, of g] show ?thesis .
  qed
  have e: "(\<exists>k. fst (PickWeightedGroupFromWhitelist pool itemLevel ex g) = Some k
             \<and> k \<notin> set ex
             \<and> (\<exists>row \<in> set pool. \<not> rowSkipped itemLevel row \<and> GetEffectiveGroupKey row = k))"
    and f: "fst (PickWeightedGroupFromWhitelist pool itemLevel ex g) \<noteq> None
           \<longleftrightarrow> (\<exists>row \<in> set pool. \<not> rowSkipped itemLevel row
                  \<and> GetEffectiveGroupKey row \<notin> set ex)"
    if "0 < ?T"
  proof -
    from pick_group_positive [OF that, of g] show "\<exists>k. fst (PickWeightedGroupFromWhitelist pool itemLevel ex g) = Some k
             \<and> k \<notin> set ex
             \<and> (\<exists>row \<in> set pool. \<not> rowSkipped itemLevel row \<and> GetEffectiveGroupKey row = k)"
      by blast
    from pick_group_positive [OF that, of g] show "fst (PickWeightedGroupFromWhitelist pool itemLevel ex g) \<noteq> None
           \<longleftrightarrow> (\<exists>row \<in> set pool. \<not> rowSkipped itemLevel row
                  \<and> GetEffectiveGroupKey row \<notin> set ex)"
      by auto
  qed
  from b d e f have pos: "0 < ?T \<longrightarrow>
      (\<forall>roll. 1 \<le> roll \<and> roll \<le> ?T \<longrightarrow>
         (\<exists>k. groupWalk ?gw 0 roll = Some k \<and> k \<in> fst ` set ?gw))
      \<and> 1 \<le> fst (urand 1 ?T g)
      \<and> fst (urand 1 ?T g) \<le> ?T
      \<and> (\<exists>k. fst (PickWeightedGroupFromWhitelist pool itemLevel ex g) = Some k
             \<and> k \<notin> set ex
             \<and> (\<exists>row \<in> set pool. \<not> rowSkipped itemLevel row \<and> GetEffectiveGroupKey row = k))
      \<and> (fst (PickWeightedGroupFromWhitelist pool itemLevel ex g) \<noteq> None
           \<longleftrightarrow> (\<exists>row \<in> set pool. \<not> rowSkipped itemLevel row
                  \<and> GetEffectiveGroupKey row \<notin> set ex))"
    by blast
  from pos a c show ?thesis by blast
qed

lemma from_digits_snoc: "from_digits (s @ [c]) = 10 * from_digits s + (of_char c - 48)"
  by (simp add: from_digits_def)

lemma of_char_digit: "d < 10 \<Longrightarrow> of_char (digit_char d) - 48 = d"
  by (simp add: digit_char_def of_char_of)

lemma from_digits_to_string: "from_digits (to_string n) = n"
proof (induction n rule: to_string.induct)
  case (1 n)
  show ?case
  proof (cases "n < 10")
    case True
    then show ?thesis
      using of_char_digit [of n] by (subst to_string.simps) (simp add: from_digits_def)
  next
    case False
    with 1 have "from_digits (to_string (n div 10)) = n div 10" by simp
    with False show ?thesis
      using of_char_digit [of "n mod 10"]
      by (subst to_string.simps) (simp add: from_digits_snoc)
  qed
qed

lemma to_string_inj: "inj to_string"
  by (rule inj_on_inverseI [where g = from_digits]) (rule from_digits_to_string)

lemma groupWeightsPut_sum_new:
  "key \<notin> fst ` set gw \<Longrightarrow>
     sum_list (map snd (groupWeightsPut key w gw)) = w + sum_list (map snd gw)"
  by (induction key w gw rule: groupWeightsPut.induct) (auto simp: add.left_commute)

lemma groupWeights_fold_sum_distinct:
  assumes "\<forall>row \<in> set pool. \<not> rowSkipped itemLevel row"
    and "distinct (map GetEffectiveGroupKey pool)"
    and "GetEffectiveGroupKey ` set pool \<inter> fst ` set gw = {}"
  shows "sum_list (map snd (fold (groupWeightsStep itemLevel []) pool gw))
           = sum_list (map snd gw) + sum_list (map (\<lambda>row. ucast (weight row)) pool)"
  using assms
proof (induction pool arbitrary: gw)
  case Nil
  then show ?case by simp
next
  case (Cons row rows)
  let ?k = "GetEffectiveGroupKey row"
  let ?gw' = "groupWeightsPut ?k (ucast (weight row)) gw"
  have step: "groupWeightsStep itemLevel [] row gw = ?gw'"
    using Cons.prems(1) by (simp add: groupWeightsStep_def)
  have new: "?k \<notin> fst ` set gw" using Cons.prems(3) by auto
  have keys: "fst ` set ?gw' = insert ?k (fst ` set gw)"
    using groupWeightsPut_keys [of ?k "ucast (weight row)" gw] by simp
  have "sum_list (map snd (fold (groupWeightsStep itemLevel []) rows ?gw'))
          = sum_list (map snd ?gw') + sum_list (map (\<lambda>row. ucast (weight row)) rows)"
  proof (rule Cons.IH)
    show "\<forall>row \<in> set rows. \<not> rowSkipped itemLevel row" using Cons.prems(1) by simp
    show "distinct (map GetEffectiveGroupKey rows)" using Cons.prems(2) by simp
    show "GetEffectiveGroupKey ` set rows \<inter> fst ` set ?gw' = {}"
      using Cons.prems(2,3) keys by auto
  qed
  then show ?case
    by (simp add: step groupWeightsPut_sum_new [OF new] add.assoc)
qed

lemma wrapPool_keys: "map GetEffectiveGroupKey wrapPool = map to_string [1..<65539]"
proof -
  have "unat (of_nat i :: uint32) = i" if "i < 65538" for i
    using that by (simp add: unat_of_nat)
  then have "map GetEffectiveGroupKey
      (map (\<lambda>i. \<lparr>enchantId = of_nat i, groupKey = [], rank = 1, minIlvl = 0, weight = 65535\<rparr>)
         [1..<65538]) = map to_string [1..<65538]"
    by (simp add: GetEffectiveGroupKey_def)
  moreover have "[1..<65539] = [1..<65538] @ [65538]"
    using upt_Suc_append [of 1 65538] by simp
  ultimately show ?thesis
    by (simp add: wrapPool_def GetEffectiveGroupKey_def)
qed

lemma wrapPool_total: "totalWeight (groupWeights wrapPool 0 []) = 0"
proof -
  have un: "\<forall>row \<in> set wrapPool. \<not> rowSkipped 0 row"
    by (auto simp: wrapPool_def rowSkipped_def)
  have di: "distinct (map GetEffectiveGroupKey wrapPool)"
    unfolding wrapPool_keys
    by (simp add: distinct_map inj_on_subset [OF to_string_inj])
  have "sum_list (map snd (groupWeights wrapPool 0 []))
          = sum_list (map (\<lambda>row. ucast (weight row) :: uint32) wrapPool)"
    using groupWeights_fold_sum_distinct [OF un di, of "[]"] by (simp add: groupWeights_def)
  also have "\<dots> = of_nat 65537 * 65535 + 1"
    by (simp add: wrapPool_def comp_def sum_list_triv)
  also have "\<dots> = (0 :: uint32)" by simp
  finally show ?thesis by (simp add: totalWeight_sum)
qed

text \<open>
  Where the total is not positive because it has wrapped to zero: 65537 self-grouped rows
  of weight 65535 and one of weight 1 add up to \<open>2^32\<close>, the \<open>uint32\<close> total is 0, and
  the sampler returns failure although every row is eligible and nothing is excluded.
\<close>

theorem group_sampler_total_wraps:
  "fst (PickWeightedGroupFromWhitelist wrapPool 0 [] []) = None
   \<and> length wrapPool = 65538
   \<and> \<lparr>enchantId = 65538, groupKey = [], rank = 1, minIlvl = 0, weight = 1\<rparr> \<in> set wrapPool
   \<and> \<not> rowSkipped 0 \<lparr>enchantId = 65538, groupKey = [], rank = 1, minIlvl = 0, weight = 1\<rparr>
   \<and> GetEffectiveGroupKey \<lparr>enchantId = 65538, groupKey = [], rank = 1, minIlvl = 0, weight = 1\<rparr>
        \<notin> set []"
  by (simp add: pick_group_None_iff wrapPool_total rowSkipped_def) (simp add: wrapPool_def)

lemma assoc_rebuild:
  "distinct (map fst xs) \<Longrightarrow> map (\<lambda>k. (k, the (map_of xs k))) (map fst xs) = xs"
proof (induction xs)
  case Nil
  then show ?case by simp
next
  case (Cons x xs)
  then have "map (\<lambda>k. (k, the (map_of (x # xs) k))) (map fst xs) = map (\<lambda>k. (k, the (map_of xs k))) (map fst xs)"
    by (intro map_cong) (auto simp: rev_image_eqI)
  with Cons show ?case by simp
qed

lemma sorted_assoc_unique:
  assumes "sorted (map fst xs)" "distinct (map fst xs)"
    and "sorted (map fst ys)" "distinct (map fst ys)"
    and "map_of xs = map_of ys"
  shows "xs = ys"
proof -
  have "set (map fst xs) = set (map fst ys)"
    using assms(5) by (metis dom_map_of_conv_image_fst set_map)
  with assms(1-4) have "map fst xs = map fst ys"
    by (intro sorted_distinct_set_unique) simp_all
  with assoc_rebuild [OF assms(2)] assoc_rebuild [OF assms(4)] assms(5)
  show ?thesis by simp
qed

lemma eligibleRows_append:
  "eligibleRows (xs @ ys) itemLevel k = eligibleRows xs itemLevel k @ eligibleRows ys itemLevel k"
  by (simp add: eligibleRows_def)

lemma groupWeights_dominated_row:
  assumes "rowSkipped itemLevel row \<or> GetEffectiveGroupKey row \<in> set ex
           \<or> (\<exists>r \<in> set (xs @ ys). \<not> rowSkipped itemLevel r
                \<and> GetEffectiveGroupKey r = GetEffectiveGroupKey row \<and> weight row \<le> weight r)"
  shows "groupWeights (xs @ row # ys) itemLevel ex = groupWeights (xs @ ys) itemLevel ex"
proof (rule sorted_assoc_unique)
  show "map_of (groupWeights (xs @ row # ys) itemLevel ex) = map_of (groupWeights (xs @ ys) itemLevel ex)"
  proof
    fix k
    let ?E = "eligibleRows (xs @ ys) itemLevel k"
    let ?E' = "eligibleRows (xs @ row # ys) itemLevel k"
    show "map_of (groupWeights (xs @ row # ys) itemLevel ex) k = map_of (groupWeights (xs @ ys) itemLevel ex) k"
    proof (cases "k \<in> set ex \<or> rankSkipped itemLevel k row")
      case True
      then show ?thesis
        by (auto simp: groupWeights_entry eligibleRows_append eligibleRows_Cons)
    next
      case False
      then have k: "k \<notin> set ex" "\<not> rowSkipped itemLevel row" "GetEffectiveGroupKey row = k"
        by (simp_all add: rankSkipped_def)
      with assms obtain r where r: "r \<in> set (xs @ ys)" "\<not> rowSkipped itemLevel r"
        "GetEffectiveGroupKey r = k" "weight row \<le> weight r" by auto
      then have rE: "r \<in> set ?E"
        by (auto simp: eligibleRows_def rowSkipped_def word_gt_0 not_less)
      then have ne: "?E \<noteq> []" by auto
      have set': "set ?E' = insert row (set ?E)"
        using False by (auto simp: eligibleRows_append eligibleRows_Cons)
      have "weight row \<le> Max (weight ` set ?E)"
        using rE r(4) by (meson Max_ge finite_imageI finite_set image_eqI order_trans)
      then have "Max (weight ` set ?E') = Max (weight ` set ?E)"
        using ne by (simp add: set' max_def)
      moreover have "?E' \<noteq> []" using set' by auto
      ultimately show ?thesis using ne k(1) by (simp add: groupWeights_entry)
    qed
  qed
qed (rule groupWeights_sorted groupWeights_distinct)+

lemma card_word_interval:
  fixes a v :: uint32
  assumes "unat a + unat v < 2 ^ 32"
  shows "card {roll. a < roll \<and> roll \<le> a + v} = unat v"
proof -
  let ?S = "{roll. a < roll \<and> roll \<le> a + v}"
  have av: "unat (a + v) = unat a + unat v"
    using assms unat_add_lem [of a v] by simp
  have mem: "roll \<in> ?S \<longleftrightarrow> unat a < unat roll \<and> unat roll \<le> unat a + unat v" for roll
    by (simp add: word_less_nat_alt word_le_nat_alt av)
  have "unat ` ?S = {unat a <.. unat a + unat v}"
  proof (intro set_eqI iffI)
    fix n assume "n \<in> unat ` ?S"
    then obtain roll where "roll \<in> ?S" "n = unat roll" by blast
    then show "n \<in> {unat a <.. unat a + unat v}" using mem by simp
  next
    fix n assume n: "n \<in> {unat a <.. unat a + unat v}"
    then have "n < 2 ^ 32" using assms by simp
    then have u: "unat (of_nat n :: uint32) = n" by (simp add: unat_of_nat)
    with n have "(of_nat n :: uint32) \<in> ?S" using mem by simp
    then show "n \<in> unat ` ?S" using u by (metis image_eqI)
  qed
  moreover have "inj_on unat ?S"
    by (rule inj_onI) (simp only: word_unat_eq_iff)
  ultimately have "card ?S = card {unat a <.. unat a + unat v}"
    using card_image [of unat ?S] by simp
  then show ?thesis by simp
qed

lemma groupWalk_count:
  assumes "distinct (map fst gw)"
    and "unat running + sum_list (map (unat \<circ> snd) gw) < 2 ^ 32"
  shows "card {roll. running < roll \<and> groupWalk gw running roll = Some k}
           = (case map_of gw k of None \<Rightarrow> 0 | Some v \<Rightarrow> unat v)"
  using assms
proof (induction gw arbitrary: running)
  case Nil
  then show ?case by simp
next
  case (Cons kv kvs)
  obtain k0 v0 where kv: "kv = (k0, v0)" by (cases kv)
  have nw: "unat running + unat v0 < 2 ^ 32" using Cons.prems(2) by (simp add: kv)
  then have rv: "unat (running + v0) = unat running + unat v0"
    using unat_add_lem [of running v0] by simp
  then have le: "running \<le> running + v0" by (simp add: word_le_nat_alt)
  show ?case
  proof (cases "k = k0")
    case True
    have "k0 \<notin> fst ` set kvs" using Cons.prems(1) by (simp add: kv)
    then have "groupWalk kvs r roll \<noteq> Some k0" for r roll
      using groupWalk_Some_key by blast
    then have "{roll. running < roll \<and> groupWalk (kv # kvs) running roll = Some k}
                 = {roll. running < roll \<and> roll \<le> running + v0}"
      by (auto simp: kv True Let_def)
    then show ?thesis using card_word_interval [OF nw] by (simp add: kv True)
  next
    case False
    have "{roll. running < roll \<and> groupWalk (kv # kvs) running roll = Some k}
            = {roll. running + v0 < roll \<and> groupWalk kvs (running + v0) roll = Some k}"
      using False le by (auto simp: kv Let_def not_le)
    moreover have "card {roll. running + v0 < roll \<and> groupWalk kvs (running + v0) roll = Some k}
            = (case map_of kvs k of None \<Rightarrow> 0 | Some v \<Rightarrow> unat v)"
    proof (rule Cons.IH)
      show "distinct (map fst kvs)" using Cons.prems(1) by simp
      show "unat (running + v0) + sum_list (map (unat \<circ> snd) kvs) < 2 ^ 32"
        using Cons.prems(2) rv by (simp add: kv comp_def)
    qed
    ultimately show ?thesis using False by (simp add: kv)
  qed
qed

lemma groupWalk_Some_le:
  assumes "unat running + sum_list (map (unat \<circ> snd) gw) < 2 ^ 32"
    and "groupWalk gw running roll = Some k"
  shows "unat roll \<le> unat running + sum_list (map (unat \<circ> snd) gw)"
  using assms
proof (induction gw arbitrary: running)
  case Nil
  then show ?case by simp
next
  case (Cons kv kvs)
  obtain k0 v0 where kv: "kv = (k0, v0)" by (cases kv)
  have nw: "unat running + unat v0 < 2 ^ 32" using Cons.prems(1) by (simp add: kv)
  then have rv: "unat (running + v0) = unat running + unat v0"
    using unat_add_lem [of running v0] by simp
  show ?case
  proof (cases "roll \<le> running + v0")
    case True
    then show ?thesis using rv by (simp add: kv word_le_nat_alt)
  next
    case False
    with Cons.prems(2) have "groupWalk kvs (running + v0) roll = Some k"
      by (simp add: kv Let_def)
    from Cons.IH [OF _ this] Cons.prems(1) rv show ?thesis by (simp add: kv add.assoc)
  qed
qed

lemma group_pick_count:
  assumes "length pool \<le> 65537"
  shows "card {roll. 1 \<le> roll \<and> roll \<le> totalWeight (groupWeights pool itemLevel ex)
                \<and> groupWalk (groupWeights pool itemLevel ex) 0 roll = Some k}
           = (case map_of (groupWeights pool itemLevel ex) k of None \<Rightarrow> 0 | Some v \<Rightarrow> unat v)"
proof -
  let ?gw = "groupWeights pool itemLevel ex"
  have tw: "unat (totalWeight ?gw) = sum_list (map (unat \<circ> snd) ?gw)"
    by (rule totalWeight_no_wrap [OF assms])
  have nw: "unat (0 :: uint32) + sum_list (map (unat \<circ> snd) ?gw) < 2 ^ 32"
    using tw unsigned_less [of "totalWeight ?gw", where ?'a = nat] by simp
  have "{roll. 1 \<le> roll \<and> roll \<le> totalWeight ?gw \<and> groupWalk ?gw 0 roll = Some k}
          = {roll. 0 < roll \<and> groupWalk ?gw 0 roll = Some k}"
  proof (intro set_eqI iffI; clarsimp)
    fix roll :: uint32 assume "1 \<le> roll"
    then show "0 < roll" by (simp add: word_le_nat_alt word_less_nat_alt)
  next
    fix roll :: uint32 assume r: "0 < roll" "groupWalk ?gw 0 roll = Some k"
    from groupWalk_Some_le [OF nw r(2)] tw have "roll \<le> totalWeight ?gw"
      by (simp add: word_le_nat_alt)
    moreover from r(1) have "1 \<le> roll" by (simp add: word_le_nat_alt word_less_nat_alt Suc_leI)
    ultimately show "1 \<le> roll \<and> roll \<le> totalWeight ?gw" by simp
  qed
  then show ?thesis
    using groupWalk_count [OF groupWeights_distinct nw, where k = k] by simp
qed

text \<open>
  The draw of the sampler: the raw values below the total are sent one to one onto
  \<open>[1, totalWeight]\<close>.
\<close>

lemma sampler_draw:
  assumes "r < unat hi"
  shows "urand 1 hi (r # g) = (1 + of_nat r, g)"
proof -
  from assms have "1 \<le> unat hi" by simp
  then have "unat hi - unat (1 :: uint32) + 1 = unat hi" by simp
  with assms show ?thesis by (simp add: urand_def)
qed

lemma sampler_pick_count:
  assumes "length pool \<le> 65537"
  shows "card {r. r < unat (totalWeight (groupWeights pool itemLevel ex))
                \<and> fst (PickWeightedGroupFromWhitelist pool itemLevel ex (r # g)) = Some k}
           = (case map_of (groupWeights pool itemLevel ex) k of None \<Rightarrow> 0 | Some v \<Rightarrow> unat v)"
proof -
  let ?gw = "groupWeights pool itemLevel ex"
  let ?T = "totalWeight ?gw"
  let ?f = "\<lambda>r :: nat. (1 :: uint32) + of_nat r"
  let ?R = "{r. r < unat ?T \<and> fst (PickWeightedGroupFromWhitelist pool itemLevel ex (r # g)) = Some k}"
  let ?S = "{roll. 1 \<le> roll \<and> roll \<le> ?T \<and> groupWalk ?gw 0 roll = Some k}"
  have T32: "unat ?T < 2 ^ 32" using unsigned_less [of ?T, where ?'a = nat] by simp
  have uf: "unat (?f r) = Suc r" if "r < unat ?T" for r
    using that T32 by (simp add: unat_word_ariths unat_of_nat)
  have pick: "fst (PickWeightedGroupFromWhitelist pool itemLevel ex (r # g)) = groupWalk ?gw 0 (?f r)"
    if "r < unat ?T" for r
  proof -
    from that have nz: "?T \<noteq> 0" by (metis not_less_zero unat_0)
    then have "?gw \<noteq> []" using totalWeight_Nil by auto
    with nz sampler_draw [OF that, of g] show ?thesis
      by (simp add: PickWeightedGroupFromWhitelist_def Let_def)
  qed
  have "?f ` ?R = ?S"
  proof (intro set_eqI iffI)
    fix roll assume "roll \<in> ?f ` ?R"
    then obtain r where r: "r < unat ?T" "fst (PickWeightedGroupFromWhitelist pool itemLevel ex (r # g)) = Some k"
      and roll: "roll = ?f r" by blast
    from uf [OF r(1)] r(1) have "1 \<le> ?f r \<and> ?f r \<le> ?T"
      by (simp add: word_le_nat_alt)
    with r pick [OF r(1)] show "roll \<in> ?S" by (simp add: roll)
  next
    fix roll assume "roll \<in> ?S"
    then have s: "1 \<le> roll" "roll \<le> ?T" "groupWalk ?gw 0 roll = Some k" by simp_all
    define r where "r = unat roll - 1"
    from s(1,2) have r: "r < unat ?T" "Suc r = unat roll"
      by (simp_all add: r_def word_le_nat_alt)
    have "unat (?f r) = unat roll" using uf [OF r(1)] r(2) by simp
    then have fr: "?f r = roll" by (simp only: word_unat_eq_iff)
    with pick [OF r(1)] s(3) r(1) have "r \<in> ?R" by simp
    with fr show "roll \<in> ?f ` ?R" by blast
  qed
  moreover have "inj_on ?f ?R"
  proof (rule inj_onI)
    fix a b assume a: "a \<in> ?R" and b: "b \<in> ?R" and eq: "?f a = ?f b"
    from a have a': "a < unat ?T" by blast
    from b have b': "b < unat ?T" by blast
    from eq have "unat (?f a) = unat (?f b)" by (rule arg_cong)
    with uf [OF a'] uf [OF b'] show "a = b" by linarith
  qed
  ultimately have "card ?R = card ?S" using card_image [of ?f ?R] by simp
  with group_pick_count [OF assms, of itemLevel ex k] show ?thesis by simp
qed

text \<open>
  Claim C3, amended. The map entry of a group is the maximum weight among its eligible
  rows (no entry for an excluded group or one with no eligible row), each group has one
  entry, and the total is the sum of the entries. For a pool of at most 65537 rows, where
  the \<open>uint32\<close> total cannot wrap, the sampler selects a group with probability maximum
  weight over total: of the \<open>totalWeight\<close> raw values of the random source that give the
  draws of \<open>[1, totalWeight]\<close>, the number on which the sampler returns the group is the
  group's entry (and so is the number of draws at which the walk stops at the group). A
  further row that is skipped, excluded, or whose weight does not exceed that of an
  eligible row already in its group, wherever it is put in the pool, changes neither the
  map nor the sampler's result on any random source.
\<close>

theorem group_weight_is_maximum:
  "map_of (groupWeights pool itemLevel ex) k =
     (if k \<in> set ex \<or> eligibleRows pool itemLevel k = [] then None
      else Some (ucast (Max (set (map weight (eligibleRows pool itemLevel k))))))
   \<and> distinct (map fst (groupWeights pool itemLevel ex))
   \<and> totalWeight (groupWeights pool itemLevel ex)
        = sum_list (map snd (groupWeights pool itemLevel ex))
   \<and> (length pool \<le> 65537 \<longrightarrow>
        card {roll. 1 \<le> roll \<and> roll \<le> totalWeight (groupWeights pool itemLevel ex)
                \<and> groupWalk (groupWeights pool itemLevel ex) 0 roll = Some k}
          = (case map_of (groupWeights pool itemLevel ex) k of None \<Rightarrow> 0 | Some v \<Rightarrow> unat v))
   \<and> (length pool \<le> 65537 \<longrightarrow>
        card {r. r < unat (totalWeight (groupWeights pool itemLevel ex))
                \<and> fst (PickWeightedGroupFromWhitelist pool itemLevel ex (r # g)) = Some k}
          = (case map_of (groupWeights pool itemLevel ex) k of None \<Rightarrow> 0 | Some v \<Rightarrow> unat v))
   \<and> (\<forall>row xs ys.
        pool = xs @ ys \<and>
        (rowSkipped itemLevel row \<or> GetEffectiveGroupKey row \<in> set ex
         \<or> (\<exists>r \<in> set pool. \<not> rowSkipped itemLevel r
               \<and> GetEffectiveGroupKey r = GetEffectiveGroupKey row \<and> weight row \<le> weight r))
        \<longrightarrow> groupWeights (xs @ row # ys) itemLevel ex = groupWeights pool itemLevel ex
          \<and> PickWeightedGroupFromWhitelist (xs @ row # ys) itemLevel ex g
              = PickWeightedGroupFromWhitelist pool itemLevel ex g)"
proof -
  have e: "groupWeights (xs @ row # ys) itemLevel ex = groupWeights pool itemLevel ex
          \<and> PickWeightedGroupFromWhitelist (xs @ row # ys) itemLevel ex g
              = PickWeightedGroupFromWhitelist pool itemLevel ex g"
    if "pool = xs @ ys" and "rowSkipped itemLevel row \<or> GetEffectiveGroupKey row \<in> set ex
         \<or> (\<exists>r \<in> set pool. \<not> rowSkipped itemLevel r
               \<and> GetEffectiveGroupKey r = GetEffectiveGroupKey row \<and> weight row \<le> weight r)"
    for row xs ys
  proof -
    have "groupWeights (xs @ row # ys) itemLevel ex = groupWeights pool itemLevel ex"
      unfolding that(1) by (rule groupWeights_dominated_row) (use that in simp)
    then show ?thesis by (simp add: PickWeightedGroupFromWhitelist_def)
  qed
  show ?thesis
    using groupWeights_entry [of pool itemLevel ex k] groupWeights_distinct [of pool itemLevel ex]
      totalWeight_sum [of "groupWeights pool itemLevel ex"]
      group_pick_count [of pool itemLevel ex k] sampler_pick_count [of pool itemLevel ex g k] e
    by blast
qed

lemma poolAB9_weights:
  "groupWeights (poolAB @ [rowA9]) 0 [] = [(''A'', 9), (''B'', 10)]"
  by code_simp

lemma poolAB9_eligible_A:
  "eligibleRows (poolAB @ [rowA9]) 0 ''A'' =
     [\<lparr>enchantId = 1, groupKey = ''A'', rank = 1, minIlvl = 0, weight = 5\<rparr>,
      \<lparr>enchantId = 3, groupKey = ''A'', rank = 2, minIlvl = 0, weight = 9\<rparr>]"
  by code_simp

text \<open>
  The theorem at a pool with rows of weights 5 and 9 in group \<open>A\<close> and a row of weight
  10 in group \<open>B\<close>: group \<open>A\<close> contributes 9 (not 14) to the total of 19, the sampler
  returns it on nine of the nineteen raw values, and one more row of weight 7 in group
  \<open>A\<close> changes nothing.
\<close>

theorem group_weight_is_maximum_witness:
  "length (poolAB @ [rowA9]) \<le> 65537
   \<and> map_of (groupWeights (poolAB @ [rowA9]) 0 []) ''A'' = Some 9
   \<and> totalWeight (groupWeights (poolAB @ [rowA9]) 0 []) = 19
   \<and> card {roll. 1 \<le> roll \<and> roll \<le> 19
             \<and> groupWalk (groupWeights (poolAB @ [rowA9]) 0 []) 0 roll = Some ''A''} = 9
   \<and> card {r. r < 19
             \<and> fst (PickWeightedGroupFromWhitelist (poolAB @ [rowA9]) 0 [] (r # [])) = Some ''A''} = 9
   \<and> groupWeights ((poolAB @ [rowA9]) @ rowA7 # []) 0 [] = groupWeights (poolAB @ [rowA9]) 0 []"
proof -
  let ?pool = "poolAB @ [rowA9]"
  note T = group_weight_is_maximum [of ?pool 0 "[]" "''A''" "[]"]
  have len: "length ?pool \<le> 65537" by (simp add: poolAB_def)
  have dom: "?pool = ?pool @ [] \<and>
     (rowSkipped 0 rowA7 \<or> GetEffectiveGroupKey rowA7 \<in> set []
       \<or> (\<exists>r \<in> set ?pool. \<not> rowSkipped 0 r
            \<and> GetEffectiveGroupKey r = GetEffectiveGroupKey rowA7 \<and> weight rowA7 \<le> weight r))"
    by (simp add: poolAB_def rowA9_def rowA7_def rowSkipped_def GetEffectiveGroupKey_def)
  have tot: "totalWeight (groupWeights ?pool 0 []) = 19"
    using T by (simp add: poolAB9_weights)
  have ent: "map_of (groupWeights ?pool 0 []) ''A'' = Some 9"
    using T by (simp add: poolAB9_weights)
  have cnt: "card {roll. 1 \<le> roll \<and> roll \<le> 19
             \<and> groupWalk (groupWeights ?pool 0 []) 0 roll = Some ''A''} = 9"
    using T len tot ent by simp
  have smp: "card {r. r < 19
             \<and> fst (PickWeightedGroupFromWhitelist ?pool 0 [] (r # [])) = Some ''A''} = 9"
    using T len tot ent by simp
  have same: "groupWeights (?pool @ rowA7 # []) 0 [] = groupWeights ?pool 0 []"
    using T dom by blast
  from len ent tot cnt smp same show ?thesis by simp
qed

text \<open>
  Claim C3 as stated ("adding more rows to a group never increases its selection
  probability") fails: with rows \<open>A\<close> (weight 5) and \<open>B\<close> (weight 10), group \<open>A\<close> is
  selected by 5 of the 15 draws; after a second row of weight 9 joins group \<open>A\<close> it is
  selected by 9 of the 19 draws, and \<open>5/15 < 9/19\<close>. The counts are given for the walk
  and for the sampler run on each raw value.
\<close>

theorem more_rows_raise_group_odds:
  "groupWeights poolAB 0 [] = [(''A'', 5), (''B'', 10)]
   \<and> totalWeight (groupWeights poolAB 0 []) = 15
   \<and> length (filter (\<lambda>roll. groupWalk (groupWeights poolAB 0 []) 0 roll = Some ''A'')
        (map of_nat [1..<16])) = 5
   \<and> groupWeights (poolAB @ [rowA9]) 0 [] = [(''A'', 9), (''B'', 10)]
   \<and> totalWeight (groupWeights (poolAB @ [rowA9]) 0 []) = 19
   \<and> length (filter (\<lambda>roll. groupWalk (groupWeights (poolAB @ [rowA9]) 0 []) 0 roll = Some ''A'')
        (map of_nat [1..<20])) = 9
   \<and> length (filter (\<lambda>r. fst (PickWeightedGroupFromWhitelist poolAB 0 [] [r]) = Some ''A'')
        [0..<15]) = 5
   \<and> length (filter (\<lambda>r. fst (PickWeightedGroupFromWhitelist (poolAB @ [rowA9]) 0 [] [r]) = Some ''A'')
        [0..<19]) = 9
   \<and> (5 :: nat) * 19 < 9 * 15"
  by code_simp

lemma pool6_weights: "groupWeights pool6 30 [''B''] = [(''77'', 10), (''A'', 9)]"
  by code_simp

text \<open>
  The theorem at the sample pool, tier 30, with group \<open>B\<close> excluded: the groups left are
  \<open>77\<close> (weight 10) and \<open>A\<close> (weight 9), the total is 19, and the draw 4 selects a
  group.
\<close>

theorem group_walk_never_falls_through_witness:
  "0 < totalWeight (groupWeights pool6 30 [''B''])
   \<and> length pool6 \<le> 65537
   \<and> (1 :: uint32) \<le> 4 \<and> (4 :: uint32) \<le> totalWeight (groupWeights pool6 30 [''B''])
   \<and> groupWalk (groupWeights pool6 30 [''B'']) 0 4 \<noteq> None
   \<and> fst (PickWeightedGroupFromWhitelist pool6 30 [''B''] [3]) \<noteq> None
   \<and> (\<exists>row \<in> set pool6. \<not> rowSkipped 30 row \<and> GetEffectiveGroupKey row \<notin> set [''B''])"
proof -
  note T = group_walk_never_falls_through [of pool6 30 "[''B'']" "[3]"]
  have len: "length pool6 \<le> 65537" by (simp add: pool6_def)
  have tot: "totalWeight (groupWeights pool6 30 [''B'']) = 19"
    by (simp add: pool6_weights totalWeight_def)
  have pos: "0 < totalWeight (groupWeights pool6 30 [''B''])" by (simp add: tot)
  have r: "(1 :: uint32) \<le> 4 \<and> (4 :: uint32) \<le> totalWeight (groupWeights pool6 30 [''B''])"
    by (simp add: tot)
  from T pos have walk: "\<forall>roll. 1 \<le> roll \<and> roll \<le> totalWeight (groupWeights pool6 30 [''B'']) \<longrightarrow>
         (\<exists>k. groupWalk (groupWeights pool6 30 [''B'']) 0 roll = Some k
              \<and> k \<in> fst ` set (groupWeights pool6 30 [''B'']))"
    by blast
  from walk r have w: "groupWalk (groupWeights pool6 30 [''B'']) 0 4 \<noteq> None"
    by (metis option.distinct(1))
  from T pos have iff: "fst (PickWeightedGroupFromWhitelist pool6 30 [''B''] [3]) \<noteq> None
           \<longleftrightarrow> (\<exists>row \<in> set pool6. \<not> rowSkipped 30 row \<and> GetEffectiveGroupKey row \<notin> set [''B''])"
    by blast
  from T pos have "\<exists>k. fst (PickWeightedGroupFromWhitelist pool6 30 [''B''] [3]) = Some k"
    by blast
  then have p: "fst (PickWeightedGroupFromWhitelist pool6 30 [''B''] [3]) \<noteq> None" by auto
  from pos len r w p iff show ?thesis by blast
qed

lemma gearOf_Cons:
  "gearOf st keyOf key (e # es) =
     (case LookupEntry st e of
        None \<Rightarrow> gearOf st keyOf key es
      | Some p \<Rightarrow>
          if InventoryType p \<noteq> INVTYPE_NON_EQUIP \<and> InventoryType p \<noteq> INVTYPE_BAG \<and> keyOf p = key
          then p # gearOf st keyOf key es else gearOf st keyOf key es)"
  by (simp add: gearOf_def List.map_filter_simps split: option.splits)

lemma index_fold:
  "fold (indexStep st keyOf) es m key =
     (if gearOf st keyOf key es = [] then m key
      else Some ((case m key of None \<Rightarrow> [] | Some vec \<Rightarrow> vec)
                  @ map (\<lambda>p. (ItemLevel p, ItemId p)) (gearOf st keyOf key es)))"
proof (induction es arbitrary: m)
  case Nil
  then show ?case by (simp add: gearOf_def List.map_filter_simps)
next
  case (Cons e es)
  show ?case
  proof (cases "LookupEntry st e")
    case None
    then show ?thesis using Cons [of m] by (simp add: indexStep_def gearOf_Cons)
  next
    case (Some p)
    show ?thesis
    proof (cases "InventoryType p = INVTYPE_NON_EQUIP \<or> InventoryType p = INVTYPE_BAG")
      case True
      then show ?thesis using Cons [of m] Some by (auto simp: indexStep_def gearOf_Cons)
    next
      case False
      define m' where "m' = m(keyOf p \<mapsto> (case m (keyOf p) of None \<Rightarrow> [] | Some vec \<Rightarrow> vec)
                    @ [(ItemLevel p, ItemId p)])"
      have step: "indexStep st keyOf e m = m'"
        using Some False by (simp add: indexStep_def m'_def)
      have IH: "fold (indexStep st keyOf) es m' key =
         (if gearOf st keyOf key es = [] then m' key
          else Some ((case m' key of None \<Rightarrow> [] | Some vec \<Rightarrow> vec)
                  @ map (\<lambda>p. (ItemLevel p, ItemId p)) (gearOf st keyOf key es)))"
        by (rule Cons)
      show ?thesis
      proof (cases "keyOf p = key")
        case True
        then have m'k: "m' key = Some ((case m key of None \<Rightarrow> [] | Some vec \<Rightarrow> vec)
                    @ [(ItemLevel p, ItemId p)])"
          by (simp add: m'_def)
        have g: "gearOf st keyOf key (e # es) = p # gearOf st keyOf key es"
          using Some False True by (simp add: gearOf_Cons)
        show ?thesis by (simp add: step IH m'k g)
      next
        case F: False
        then have m'k: "m' key = m key" by (simp add: m'_def)
        have g: "gearOf st keyOf key (e # es) = gearOf st keyOf key es"
          using Some F by (simp add: gearOf_Cons)
        show ?thesis by (simp add: step IH m'k g)
      qed
    qed
  qed
qed

lemma buildIndex_eq:
  "buildIndex st keyOf key =
     (if gearOf st keyOf key (storageEntries st) = [] then None
      else Some (sort_key fst (map (\<lambda>p. (ItemLevel p, ItemId p))
                   (gearOf st keyOf key (storageEntries st)))))"
  by (simp add: buildIndex_def index_fold)

lemma buildIndex_sorted:
  "buildIndex st keyOf key = Some vec \<Longrightarrow> sorted (map fst vec)"
  by (auto simp: buildIndex_eq split: if_splits)

lemma map_filter_set: "set (List.map_filter f xs) = {y. \<exists>x \<in> set xs. f x = Some y}"
  by (induction xs) (auto simp: List.map_filter_simps split: option.splits)

lemma gearOf_set:
  "p \<in> set (gearOf st keyOf key es) \<longleftrightarrow>
     (\<exists>e \<in> set es. LookupEntry st e = Some p)
     \<and> InventoryType p \<noteq> INVTYPE_NON_EQUIP \<and> InventoryType p \<noteq> INVTYPE_BAG \<and> keyOf p = key"
  by (auto simp: gearOf_def map_filter_set)

lemma buildIndex_set:
  "buildIndex st keyOf key = Some vec \<Longrightarrow>
     set vec = (\<lambda>p. (ItemLevel p, ItemId p)) ` set (gearOf st keyOf key (storageEntries st))"
  by (auto simp: buildIndex_eq split: if_splits)

lemma buildIndex_None:
  "buildIndex st keyOf key = None \<Longrightarrow> gearOf st keyOf key (storageEntries st) = []"
  by (auto simp: buildIndex_eq split: if_splits)

lemma gearOf_length: "length (gearOf st keyOf key es) \<le> length es"
proof -
  have "length (List.map_filter (LookupEntry st) es) \<le> length es"
    by (simp add: List.map_filter_def)
  then show ?thesis
    unfolding gearOf_def by (meson length_filter_le order_trans)
qed

lemma buildIndex_length:
  assumes "buildIndex st keyOf key = Some vec"
  shows "length vec < 2 ^ 32"
proof -
  have "length vec = length (gearOf st keyOf key (storageEntries st))"
    using assms by (auto simp: buildIndex_eq split: if_splits)
  also have "\<dots> \<le> length (storageEntries st)" by (rule gearOf_length)
  also have "\<dots> \<le> unat (GetMaxEntry st)" by (simp add: storageEntries_def)
  also have "\<dots> < 2 ^ 32" using unsigned_less [of "GetMaxEntry st", where ?'a = nat] by simp
  finally show ?thesis .
qed

subsection \<open>The candidate loops\<close>

lemma downgradeCandidates_set:
  assumes "sorted (map fst vec)"
  shows "set (downgradeCandidates vec tp) =
           {ident. \<exists>lvl. (lvl, ident) \<in> set vec \<and> lvl < ItemLevel tp \<and> ident \<noteq> ItemId tp}"
  using assms
proof (induction vec)
  case Nil
  then show ?case by simp
next
  case (Cons it vec)
  obtain l i where it: "it = (l, i)" by (cases it)
  show ?case
  proof (cases "ItemLevel tp \<le> l")
    case True
    then have "\<forall>(lvl, ident) \<in> set (it # vec). ItemLevel tp \<le> lvl"
      using Cons.prems by (auto simp: it)
    then have "{ident. \<exists>lvl. (lvl, ident) \<in> set (it # vec) \<and> lvl < ItemLevel tp \<and> ident \<noteq> ItemId tp} = {}"
      by (auto simp: not_less [symmetric])
    with True show ?thesis by (simp add: it)
  next
    case False
    with Cons show ?thesis by (auto simp: it not_le)
  qed
qed

lemma downgradeCandidates_length: "length (downgradeCandidates vec tp) \<le> length vec"
  by (induction vec) (auto simp: le_SucI)

lemma upgradeCandidates_set:
  assumes "sorted (map fst vec)"
  shows "set (upgradeCandidates vec lo hi tid) =
           {ident. \<exists>lvl. (lvl, ident) \<in> set vec \<and> lo \<le> lvl \<and> lvl \<le> hi \<and> ident \<noteq> tid}"
  using assms
proof (induction vec)
  case Nil
  then show ?case by simp
next
  case (Cons it vec)
  obtain l i where it: "it = (l, i)" by (cases it)
  show ?case
  proof (cases "l < lo")
    case True
    with Cons show ?thesis by (auto simp: it not_le)
  next
    case F1: False
    show ?thesis
    proof (cases "hi < l")
      case True
      then have "\<forall>(lvl, ident) \<in> set (it # vec). hi < lvl"
        using Cons.prems by (auto simp: it)
      then have "{ident. \<exists>lvl. (lvl, ident) \<in> set (it # vec) \<and> lo \<le> lvl \<and> lvl \<le> hi \<and> ident \<noteq> tid} = {}"
        by (auto simp: not_le [symmetric])
      with True F1 show ?thesis by (simp add: it)
    next
      case False
      with F1 Cons show ?thesis by (auto simp: it not_less)
    qed
  qed
qed

lemma upgradeCandidates_length: "length (upgradeCandidates vec lo hi tid) \<le> length vec"
  by (induction vec) (auto simp: le_SucI)

lemma urand_index:
  assumes "i < n" "n \<le> 2 ^ 32"
  shows "urand 0 (of_nat (n - 1)) (i # g) = (of_nat i, g)"
    and "unat (of_nat i :: uint32) = i"
proof -
  have "n - 1 < 2 ^ 32" using assms by simp
  then have "unat (of_nat (n - 1) :: uint32) = n - 1"
    by (simp only: unat_of_nat) simp
  then show "urand 0 (of_nat (n - 1)) (i # g) = (of_nat i, g)"
    using assms by (simp add: urand_def del: of_nat_diff)
  show "unat (of_nat i :: uint32) = i" using assms by (simp add: unat_of_nat)
qed

lemma urand_index_bound:
  assumes "0 < n"
  shows "unat (fst (urand 0 (of_nat (n - 1)) g)) < n"
proof -
  have "fst (urand 0 (of_nat (n - 1)) g) \<le> (of_nat (n - 1) :: uint32)"
    using urand_range [of 0 "of_nat (n - 1)" g] by simp
  then have "unat (fst (urand 0 (of_nat (n - 1)) g)) \<le> unat (of_nat (n - 1) :: uint32)"
    by (simp add: word_le_nat_alt)
  also have "\<dots> \<le> n - 1" by (simp only: unat_of_nat) simp
  finally show ?thesis using assms by simp
qed

subsection \<open>The downgrade selector\<close>

lemma PickDowngradeEntry_eq:
  "PickDowngradeEntry st (Some tp) g =
     (if ItemLevel tp = 0 \<or> downgradeCandidatesOf st tp = [] then (0, g)
      else (downgradeCandidatesOf st tp !
              unat (fst (urand 0 (of_nat (length (downgradeCandidatesOf st tp) - 1)) g)),
            snd (urand 0 (of_nat (length (downgradeCandidatesOf st tp) - 1)) g)))"
  by (auto simp: PickDowngradeEntry_def downgradeCandidatesOf_def Let_def split_beta
      split: option.splits)

lemma downgradeCandidatesOf_length: "length (downgradeCandidatesOf st tp) < 2 ^ 32"
proof (cases "byType st (typeKeyOf tp)")
  case None
  then show ?thesis by (simp add: downgradeCandidatesOf_def)
next
  case (Some vec)
  then have "length vec < 2 ^ 32" unfolding byType_def by (rule buildIndex_length)
  with downgradeCandidates_length [of vec tp] Some show ?thesis
    by (simp add: downgradeCandidatesOf_def)
qed

lemma typeKeyOf_eq:
  "typeKeyOf p = typeKeyOf q \<longleftrightarrow>
     Class p = Class q \<and> SubClass p = SubClass q \<and> InventoryType p = InventoryType q"
  by (auto simp: typeKeyOf_def)

lemma downgradeCandidatesOf_set:
  "set (downgradeCandidatesOf st tp) =
     {ItemId p | p. (\<exists>e \<in> set (storageEntries st). LookupEntry st e = Some p)
        \<and> InventoryType p \<noteq> INVTYPE_NON_EQUIP \<and> InventoryType p \<noteq> INVTYPE_BAG
        \<and> Class p = Class tp \<and> SubClass p = SubClass tp \<and> InventoryType p = InventoryType tp
        \<and> ItemLevel p < ItemLevel tp \<and> ItemId p \<noteq> ItemId tp}"
proof (cases "byType st (typeKeyOf tp)")
  case None
  then have "gearOf st typeKeyOf (typeKeyOf tp) (storageEntries st) = []"
    unfolding byType_def by (rule buildIndex_None)
  then have "\<not> (\<exists>p. p \<in> set (gearOf st typeKeyOf (typeKeyOf tp) (storageEntries st)))"
    by simp
  then show ?thesis
    using None by (auto simp: downgradeCandidatesOf_def gearOf_set typeKeyOf_eq)
next
  case (Some vec)
  then have b: "buildIndex st typeKeyOf (typeKeyOf tp) = Some vec" by (simp add: byType_def)
  have "set (downgradeCandidatesOf st tp) =
      {ident. \<exists>lvl. (lvl, ident) \<in> set vec \<and> lvl < ItemLevel tp \<and> ident \<noteq> ItemId tp}"
    using Some downgradeCandidates_set [OF buildIndex_sorted [OF b], of tp]
    by (simp add: downgradeCandidatesOf_def)
  also have "\<dots> = {ItemId p | p. p \<in> set (gearOf st typeKeyOf (typeKeyOf tp) (storageEntries st))
        \<and> ItemLevel p < ItemLevel tp \<and> ItemId p \<noteq> ItemId tp}"
    unfolding buildIndex_set [OF b] by auto
  finally show ?thesis by (auto simp: gearOf_set typeKeyOf_eq)
qed

text \<open>
  Claim C4. The downgrade selector returns none (0) for a missing prototype and for an
  item of tier 0. Its candidate list holds exactly the ids of the gear items of the
  catalog with the target's class, subclass and slot type, a strictly lower tier and an
  id other than the target's; with no candidate it returns none, otherwise it returns a
  candidate, and the raw draw \<open>i\<close> (below the number of candidates) returns the \<open>i\<close>-th
  one, so a uniform draw picks uniformly over the candidate list. Any id it returns (a
  result other than 0) therefore belongs to an item of the same category, strictly lower
  tier and different id.
\<close>

theorem downgrade_selector:
  "PickDowngradeEntry st None g = (0, g)
   \<and> (ItemLevel tp = 0 \<longrightarrow> PickDowngradeEntry st (Some tp) g = (0, g))
   \<and> set (downgradeCandidatesOf st tp) =
       {ItemId p | p. (\<exists>e \<in> set (storageEntries st). LookupEntry st e = Some p)
          \<and> InventoryType p \<noteq> INVTYPE_NON_EQUIP \<and> InventoryType p \<noteq> INVTYPE_BAG
          \<and> Class p = Class tp \<and> SubClass p = SubClass tp \<and> InventoryType p = InventoryType tp
          \<and> ItemLevel p < ItemLevel tp \<and> ItemId p \<noteq> ItemId tp}
   \<and> (downgradeCandidatesOf st tp = [] \<longrightarrow> PickDowngradeEntry st (Some tp) g = (0, g))
   \<and> (ItemLevel tp \<noteq> 0 \<and> downgradeCandidatesOf st tp \<noteq> [] \<longrightarrow>
        fst (PickDowngradeEntry st (Some tp) g) \<in> set (downgradeCandidatesOf st tp))
   \<and> (ItemLevel tp \<noteq> 0 \<longrightarrow>
        (\<forall>i < length (downgradeCandidatesOf st tp).
           PickDowngradeEntry st (Some tp) (i # g) = (downgradeCandidatesOf st tp ! i, g)))
   \<and> (fst (PickDowngradeEntry st (Some tp) g) \<noteq> 0 \<longrightarrow>
        (\<exists>p. (\<exists>e \<in> set (storageEntries st). LookupEntry st e = Some p)
           \<and> ItemId p = fst (PickDowngradeEntry st (Some tp) g)
           \<and> Class p = Class tp \<and> SubClass p = SubClass tp \<and> InventoryType p = InventoryType tp
           \<and> ItemLevel p < ItemLevel tp \<and> ItemId p \<noteq> ItemId tp))"
proof -
  let ?C = "downgradeCandidatesOf st tp"
  let ?P = "PickDowngradeEntry st (Some tp)"
  have a: "PickDowngradeEntry st None g = (0, g)" by (simp add: PickDowngradeEntry_def)
  have b: "ItemLevel tp = 0 \<longrightarrow> ?P g = (0, g)" by (simp add: PickDowngradeEntry_eq)
  have d: "?C = [] \<longrightarrow> ?P g = (0, g)" by (simp add: PickDowngradeEntry_eq)
  have e: "fst (?P g) \<in> set ?C" if "ItemLevel tp \<noteq> 0" "?C \<noteq> []"
  proof -
    have "0 < length ?C" using that by simp
    from urand_index_bound [OF this, of g] that show ?thesis
      by (simp add: PickDowngradeEntry_eq del: of_nat_diff)
  qed
  have f: "?P (i # g) = (?C ! i, g)" if "ItemLevel tp \<noteq> 0" "i < length ?C" for i
  proof -
    have le: "length ?C \<le> 2 ^ 32" using downgradeCandidatesOf_length [of st tp] by simp
    have "?C \<noteq> []" using that by auto
    with urand_index(1) [OF that(2) le, of g] urand_index(2) [OF that(2) le] that show ?thesis
      by (simp add: PickDowngradeEntry_eq del: of_nat_diff)
  qed
  have h: "\<exists>p. (\<exists>e \<in> set (storageEntries st). LookupEntry st e = Some p)
           \<and> ItemId p = fst (?P g)
           \<and> Class p = Class tp \<and> SubClass p = SubClass tp \<and> InventoryType p = InventoryType tp
           \<and> ItemLevel p < ItemLevel tp \<and> ItemId p \<noteq> ItemId tp"
    if "fst (?P g) \<noteq> 0"
  proof -
    from that have "ItemLevel tp \<noteq> 0" "?C \<noteq> []"
      by (auto simp: PickDowngradeEntry_eq split: if_splits)
    from e [OF this] obtain p where "fst (?P g) = ItemId p"
      "\<exists>e \<in> set (storageEntries st). LookupEntry st e = Some p"
      "Class p = Class tp" "SubClass p = SubClass tp" "InventoryType p = InventoryType tp"
      "ItemLevel p < ItemLevel tp" "ItemId p \<noteq> ItemId tp"
      unfolding downgradeCandidatesOf_set by auto
    then show ?thesis by (intro exI [of _ p]) simp
  qed
  from a b d e f h downgradeCandidatesOf_set [of st tp] show ?thesis by blast
qed

lemma catalog_downgrade: "downgradeCandidatesOf catalog (sword 200 20) = [100]"
  by code_simp

text \<open>
  The theorem at the sample catalog, whose sword index is
  \<open>[(10, 100), (20, 200), (30, 300)]\<close>: for the sword of tier 20 the only candidate is
  100 and it is the result of every draw; a sword of tier 0 and the lowest sword get none.
\<close>

theorem downgrade_selector_witness:
  "ItemLevel (sword 200 0) = 0
   \<and> PickDowngradeEntry catalog (Some (sword 200 0)) [4] = (0, [4])
   \<and> ItemLevel (sword 200 20) \<noteq> 0
   \<and> downgradeCandidatesOf catalog (sword 200 20) = [100]
   \<and> PickDowngradeEntry catalog (Some (sword 200 20)) [0, 4] = (100, [4])
   \<and> fst (PickDowngradeEntry catalog (Some (sword 200 20)) [4]) = 100
   \<and> downgradeCandidatesOf catalog (sword 100 10) = []
   \<and> PickDowngradeEntry catalog (Some (sword 100 10)) [4] = (0, [4])"
proof -
  note A = downgrade_selector [of catalog "[4]" "sword 200 0"]
  note B = downgrade_selector [of catalog "[4]" "sword 200 20"]
  note C = downgrade_selector [of catalog "[4]" "sword 100 10"]
  have l0: "ItemLevel (sword 200 0) = 0" and l20: "ItemLevel (sword 200 20) \<noteq> 0"
    by (simp_all add: sword_def)
  have c10: "downgradeCandidatesOf catalog (sword 100 10) = []" by code_simp
  have a: "PickDowngradeEntry catalog (Some (sword 200 0)) [4] = (0, [4])"
    using A l0 by blast
  have b: "PickDowngradeEntry catalog (Some (sword 200 20)) [0, 4] = (100, [4])"
    using B l20 by (simp add: catalog_downgrade)
  have c: "fst (PickDowngradeEntry catalog (Some (sword 200 20)) [4]) = 100"
    using B l20 by (simp add: catalog_downgrade)
  have d: "PickDowngradeEntry catalog (Some (sword 100 10)) [4] = (0, [4])"
    using C c10 by blast
  from l0 l20 a b c d c10 catalog_downgrade show ?thesis by simp
qed

subsection \<open>The upgrade selector\<close>

lemma PickUpgradeEntrySameClass_eq:
  "PickUpgradeEntrySameClass st (Some tp) d g =
     (if upgradeCandidatesOf st tp d = [] then (0, g)
      else (upgradeCandidatesOf st tp d !
              unat (fst (urand 0 (of_nat (length (upgradeCandidatesOf st tp d) - 1)) g)),
            snd (urand 0 (of_nat (length (upgradeCandidatesOf st tp d) - 1)) g)))"
  by (auto simp: PickUpgradeEntrySameClass_def upgradeCandidatesOf_def Let_def split_beta
      split: option.splits)

lemma upgradeCandidatesOf_length: "length (upgradeCandidatesOf st tp d) < 2 ^ 32"
proof (cases "byClass st (Class tp)")
  case None
  then show ?thesis by (simp add: upgradeCandidatesOf_def)
next
  case (Some vec)
  then have "length vec < 2 ^ 32" unfolding byClass_def by (rule buildIndex_length)
  with upgradeCandidates_length [of vec "ItemLevel tp" "ItemLevel tp + d" "ItemId tp"] Some
  show ?thesis by (simp add: upgradeCandidatesOf_def)
qed

lemma upgradeCandidatesOf_set:
  "set (upgradeCandidatesOf st tp d) =
     {ItemId p | p. (\<exists>e \<in> set (storageEntries st). LookupEntry st e = Some p)
        \<and> InventoryType p \<noteq> INVTYPE_NON_EQUIP \<and> InventoryType p \<noteq> INVTYPE_BAG
        \<and> Class p = Class tp
        \<and> ItemLevel tp \<le> ItemLevel p \<and> ItemLevel p \<le> ItemLevel tp + d
        \<and> ItemId p \<noteq> ItemId tp}"
proof (cases "byClass st (Class tp)")
  case None
  then have "gearOf st Class (Class tp) (storageEntries st) = []"
    unfolding byClass_def by (rule buildIndex_None)
  then have "\<not> (\<exists>p. p \<in> set (gearOf st Class (Class tp) (storageEntries st)))"
    by simp
  then show ?thesis
    using None by (auto simp: upgradeCandidatesOf_def gearOf_set)
next
  case (Some vec)
  then have b: "buildIndex st Class (Class tp) = Some vec" by (simp add: byClass_def)
  have "set (upgradeCandidatesOf st tp d) =
      {ident. \<exists>lvl. (lvl, ident) \<in> set vec \<and> ItemLevel tp \<le> lvl \<and> lvl \<le> ItemLevel tp + d
          \<and> ident \<noteq> ItemId tp}"
    using Some upgradeCandidates_set [OF buildIndex_sorted [OF b]]
    by (simp add: upgradeCandidatesOf_def)
  also have "\<dots> = {ItemId p | p. p \<in> set (gearOf st Class (Class tp) (storageEntries st))
        \<and> ItemLevel tp \<le> ItemLevel p \<and> ItemLevel p \<le> ItemLevel tp + d
        \<and> ItemId p \<noteq> ItemId tp}"
    unfolding buildIndex_set [OF b] by auto
  finally show ?thesis by (auto simp: gearOf_set)
qed

lemma tier_interval:
  fixes lo l d :: uint32
  assumes "lo \<le> l" "l \<le> lo + d"
  shows "unat lo \<le> unat l \<and> unat l \<le> unat lo + unat d"
proof -
  have "unat (lo + d) \<le> unat lo + unat d"
    by (simp add: unat_word_ariths)
  with assms show ?thesis by (simp add: word_le_nat_alt)
qed

text \<open>
  Claim C5. The upgrade selector's candidate list holds exactly the ids of the gear items
  of the catalog with the target's class, a tier from the target's tier up to the
  (\<open>uint32\<close>) sum of that tier and the maximum delta, and an id other than the target's.
  With no candidate it returns none, otherwise a candidate, and the raw draw \<open>i\<close> returns
  the \<open>i\<close>-th one (a uniform pick over the candidates). Any id it returns belongs to an
  item of the same class whose tier is at least the target's and at most the target's
  plus the delta (as integers, also when the \<open>uint32\<close> sum wraps), and differs from the
  target's id.
\<close>

theorem upgrade_selector:
  "PickUpgradeEntrySameClass st None d g = (0, g)
   \<and> set (upgradeCandidatesOf st tp d) =
       {ItemId p | p. (\<exists>e \<in> set (storageEntries st). LookupEntry st e = Some p)
          \<and> InventoryType p \<noteq> INVTYPE_NON_EQUIP \<and> InventoryType p \<noteq> INVTYPE_BAG
          \<and> Class p = Class tp
          \<and> ItemLevel tp \<le> ItemLevel p \<and> ItemLevel p \<le> ItemLevel tp + d
          \<and> ItemId p \<noteq> ItemId tp}
   \<and> (upgradeCandidatesOf st tp d = [] \<longrightarrow> PickUpgradeEntrySameClass st (Some tp) d g = (0, g))
   \<and> (upgradeCandidatesOf st tp d \<noteq> [] \<longrightarrow>
        fst (PickUpgradeEntrySameClass st (Some tp) d g) \<in> set (upgradeCandidatesOf st tp d))
   \<and> (\<forall>i < length (upgradeCandidatesOf st tp d).
         PickUpgradeEntrySameClass st (Some tp) d (i # g) = (upgradeCandidatesOf st tp d ! i, g))
   \<and> (fst (PickUpgradeEntrySameClass st (Some tp) d g) \<noteq> 0 \<longrightarrow>
        (\<exists>p. (\<exists>e \<in> set (storageEntries st). LookupEntry st e = Some p)
           \<and> ItemId p = fst (PickUpgradeEntrySameClass st (Some tp) d g)
           \<and> Class p = Class tp
           \<and> unat (ItemLevel tp) \<le> unat (ItemLevel p)
           \<and> unat (ItemLevel p) \<le> unat (ItemLevel tp) + unat d
           \<and> ItemId p \<noteq> ItemId tp))"
proof -
  let ?C = "upgradeCandidatesOf st tp d"
  let ?P = "PickUpgradeEntrySameClass st (Some tp) d"
  have a: "PickUpgradeEntrySameClass st None d g = (0, g)"
    by (simp add: PickUpgradeEntrySameClass_def)
  have c: "?C = [] \<longrightarrow> ?P g = (0, g)" by (simp add: PickUpgradeEntrySameClass_eq)
  have e: "fst (?P g) \<in> set ?C" if "?C \<noteq> []"
  proof -
    have "0 < length ?C" using that by simp
    from urand_index_bound [OF this, of g] that show ?thesis
      by (simp add: PickUpgradeEntrySameClass_eq del: of_nat_diff)
  qed
  have f: "?P (i # g) = (?C ! i, g)" if "i < length ?C" for i
  proof -
    have le: "length ?C \<le> 2 ^ 32" using upgradeCandidatesOf_length [of st tp d] by simp
    have "?C \<noteq> []" using that by auto
    with urand_index(1) [OF that le, of g] urand_index(2) [OF that le] show ?thesis
      by (simp add: PickUpgradeEntrySameClass_eq del: of_nat_diff)
  qed
  have h: "\<exists>p. (\<exists>e \<in> set (storageEntries st). LookupEntry st e = Some p)
           \<and> ItemId p = fst (?P g)
           \<and> Class p = Class tp
           \<and> unat (ItemLevel tp) \<le> unat (ItemLevel p)
           \<and> unat (ItemLevel p) \<le> unat (ItemLevel tp) + unat d
           \<and> ItemId p \<noteq> ItemId tp"
    if "fst (?P g) \<noteq> 0"
  proof -
    from that have "?C \<noteq> []"
      by (auto simp: PickUpgradeEntrySameClass_eq split: if_splits)
    from e [OF this] obtain p where p: "fst (?P g) = ItemId p"
      "\<exists>e \<in> set (storageEntries st). LookupEntry st e = Some p"
      "Class p = Class tp" "ItemLevel tp \<le> ItemLevel p" "ItemLevel p \<le> ItemLevel tp + d"
      "ItemId p \<noteq> ItemId tp"
      unfolding upgradeCandidatesOf_set by auto
    from tier_interval [OF p(4,5)] p show ?thesis by (intro exI [of _ p]) simp
  qed
  from a c e f h upgradeCandidatesOf_set [of st tp d] show ?thesis by blast
qed

lemma catalog_upgrade_5: "upgradeCandidatesOf catalog (sword 200 20) 5 = [400]"
  by code_simp

lemma catalog_upgrade_10: "upgradeCandidatesOf catalog (sword 200 20) 10 = [400, 300]"
  by code_simp

text \<open>
  The theorem at the sample catalog, whose class-2 index is
  \<open>[(10, 100), (20, 200), (24, 400), (30, 300)]\<close>: for the sword of tier 20 and delta 5
  the only candidate is the staff of tier 24; with delta 10 the sword of tier 30 is
  a candidate too; nothing lies within 5 tiers above the sword of tier 30.
\<close>

theorem upgrade_selector_witness:
  "upgradeCandidatesOf catalog (sword 200 20) 5 = [400]
   \<and> fst (PickUpgradeEntrySameClass catalog (Some (sword 200 20)) 5 [4]) = 400
   \<and> upgradeCandidatesOf catalog (sword 200 20) 10 = [400, 300]
   \<and> PickUpgradeEntrySameClass catalog (Some (sword 200 20)) 10 [0, 4] = (400, [4])
   \<and> PickUpgradeEntrySameClass catalog (Some (sword 200 20)) 10 [1, 4] = (300, [4])
   \<and> upgradeCandidatesOf catalog (sword 300 30) 5 = []
   \<and> PickUpgradeEntrySameClass catalog (Some (sword 300 30)) 5 [4] = (0, [4])"
proof -
  note A = upgrade_selector [of catalog 5 "[4]" "sword 200 20"]
  note B = upgrade_selector [of catalog 10 "[4]" "sword 200 20"]
  note C = upgrade_selector [of catalog 5 "[4]" "sword 300 30"]
  have c30: "upgradeCandidatesOf catalog (sword 300 30) 5 = []" by code_simp
  have a: "fst (PickUpgradeEntrySameClass catalog (Some (sword 200 20)) 5 [4]) = 400"
    using A by (simp add: catalog_upgrade_5)
  have b: "i < 2 \<Longrightarrow> PickUpgradeEntrySameClass catalog (Some (sword 200 20)) 10 [i, 4]
             = (upgradeCandidatesOf catalog (sword 200 20) 10 ! i, [4])" for i
    using B by (simp add: catalog_upgrade_10)
  have c: "PickUpgradeEntrySameClass catalog (Some (sword 300 30)) 5 [4] = (0, [4])"
    using C c30 by blast
  from a b [of 0] b [of 1] c c30 catalog_upgrade_5 catalog_upgrade_10 show ?thesis by simp
qed

text \<open>
  Claim C2, amended. For every inventory service, player, target item and replacement
  entry: when the pre-check for the target's position does not pass (a zero entry, a
  position that is neither equipment nor inventory, or a validation call that does not
  return \<open>EQUIP_ERR_OK\<close>), the routine returns failure and issues no command, so the
  original item is untouched. When the pre-check passes, it issues exactly two commands:
  the destruction of the original at its position, then the placement of the
  replacement, and its result is whether the placement returned the new item. So a
  success means old destroyed and new present, and the original is destroyed only after
  a successful validation.
\<close>

theorem swap_destroys_only_after_validation:
  "TryDowngradeItemInPlace svc player None newEntry = ((False, EQUIP_ERR_OK, False), player)
   \<and> (\<not> swapValidated svc player item newEntry \<longrightarrow>
        \<not> fst (fst (TryDowngradeItemInPlace svc player (Some item) newEntry))
        \<and> snd (TryDowngradeItemInPlace svc player (Some item) newEntry) = player)
   \<and> (swapValidated svc player item newEntry \<longrightarrow>
        (\<exists>placement.
           snd (TryDowngradeItemInPlace svc player (Some item) newEntry)
             = player\<lparr>calls := calls player
                  @ [DestroyItem (GetBagSlot item) (GetSlot item), placement]\<rparr>
           \<and> placesNewItem placement newEntry
                (fst (fst (TryDowngradeItemInPlace svc player (Some item) newEntry)))))
   \<and> (fst (fst (TryDowngradeItemInPlace svc player (Some item) newEntry)) \<longrightarrow>
        swapValidated svc player item newEntry)"
proof -
  let ?R = "TryDowngradeItemInPlace svc player (Some item) newEntry"
  have a: "TryDowngradeItemInPlace svc player None newEntry = ((False, EQUIP_ERR_OK, False), player)"
    by (simp add: TryDowngradeItemInPlace_def)
  have b: "\<not> fst (fst ?R) \<and> snd ?R = player" if "\<not> swapValidated svc player item newEntry"
    using that
    by (auto simp: TryDowngradeItemInPlace_def swapValidated_def Let_def split_beta
        split: if_splits)
  have c: "\<exists>placement. snd ?R = player\<lparr>calls := calls player
                  @ [DestroyItem (GetBagSlot item) (GetSlot item), placement]\<rparr>
           \<and> placesNewItem placement newEntry (fst (fst ?R))"
    if "swapValidated svc player item newEntry"
    using that
    by (auto simp: TryDowngradeItemInPlace_def swapValidated_def Let_def split_beta issue_def
        split: if_splits)
  have d: "swapValidated svc player item newEntry" if "fst (fst ?R)"
    using that b by blast
  from a b c d show ?thesis by blast
qed

text \<open>
  The theorem at the hero's sword: with full bags the validation fails and nothing is
  issued; on the paper doll the sword is destroyed and the replacement equipped.
\<close>

theorem swap_destroys_only_after_validation_witness:
  "\<not> swapValidated fullBags hero heroSword 100
   \<and> TryDowngradeItemInPlace fullBags hero (Some heroSword) 100
       = ((False, EQUIP_ERR_FAILURE 50, False), hero)
   \<and> swapValidated (paperDoll True) hero heroSword 100
   \<and> TryDowngradeItemInPlace (paperDoll True) hero (Some heroSword) 100
       = ((True, EQUIP_ERR_OK, True),
          hero\<lparr>calls := [DestroyItem 255 15, EquipNewItem 15 100 True]\<rparr>)"
proof -
  note A = swap_destroys_only_after_validation [of fullBags hero 100 heroSword]
  note B = swap_destroys_only_after_validation [of "paperDoll True" hero 100 heroSword]
  have v1: "\<not> swapValidated fullBags hero heroSword 100"
    by (simp add: swapValidated_def fullBags_def)
  have v2: "swapValidated (paperDoll True) hero heroSword 100"
    by (simp add: swapValidated_def paperDoll_def)
  have r1: "TryDowngradeItemInPlace fullBags hero (Some heroSword) 100
       = ((False, EQUIP_ERR_FAILURE 50, False), hero)"
    using A v1 by (simp add: TryDowngradeItemInPlace_def fullBags_def)
  have r2: "TryDowngradeItemInPlace (paperDoll True) hero (Some heroSword) 100
       = ((True, EQUIP_ERR_OK, True),
          hero\<lparr>calls := [DestroyItem 255 15, EquipNewItem 15 100 True]\<rparr>)"
    using B v2
    by (simp add: TryDowngradeItemInPlace_def paperDoll_def heroSword_def hero_def issue_def)
  from v1 v2 r1 r2 show ?thesis by simp
qed

text \<open>
  Claim C2 as stated ("either the swap fully succeeds or the old item is left untouched")
  fails when the validation passes and the placement then returns no item: the routine
  returns failure after the original has been destroyed.
\<close>

theorem swap_placement_failure_loses_item:
  "TryDowngradeItemInPlace (paperDoll False) hero (Some heroSword) 100
     = ((False, EQUIP_ERR_OK, True),
        hero\<lparr>calls := [DestroyItem 255 15, EquipNewItem 15 100 False]\<rparr>)
   \<and> hero\<lparr>calls := [DestroyItem 255 15, EquipNewItem 15 100 False]\<rparr> \<noteq> hero"
  by (simp add: TryDowngradeItemInPlace_def paperDoll_def heroSword_def hero_def issue_def)

lemma marker_nonzero: "SLAMROCK_MARKER_ENCHANT_ID \<noteq> 0"
  by (simp add: SLAMROCK_MARKER_ENCHANT_ID_def)

lemma Clear_item: "snd (ClearSlamrockEnchants player item) = releasedSlots item"
proof (rule Item.equality)
  show "GetEnchantmentId (snd (ClearSlamrockEnchants player item))
          = GetEnchantmentId (releasedSlots item)"
  proof
    fix slot
    show "GetEnchantmentId (snd (ClearSlamrockEnchants player item)) slot
            = GetEnchantmentId (releasedSlots item) slot"
      by (cases slot)
        (simp_all add: ClearSlamrockEnchants_def releasedSlots_def Let_def
          SLAMROCK_ALL_PROP_SLOTS_def ClearEnchantment_def)
  qed
qed (simp_all add: ClearSlamrockEnchants_def releasedSlots_def Let_def
      SLAMROCK_ALL_PROP_SLOTS_def ClearEnchantment_def)

lemma rolled_cases:
  obtains "rolled = []" | a where "rolled = [a]" | a b where "rolled = [a, b]"
  | a b c r where "rolled = a # b # c # r"
proof (cases rolled)
  case Nil
  then show ?thesis using that by simp
next
  case (Cons a r1)
  then show ?thesis
  proof (cases r1)
    case Nil
    with Cons show ?thesis using that by simp
  next
    case (Cons b r2)
    with \<open>rolled = a # r1\<close> show ?thesis using that by (cases r2) simp_all
  qed
qed

lemma Apply_item:
  assumes "GetEnchantmentId item PROP_ENCHANTMENT_SLOT_0 = 0"
    and "GetEnchantmentId item PROP_ENCHANTMENT_SLOT_1 = 0"
    and "GetEnchantmentId item PROP_ENCHANTMENT_SLOT_2 = 0"
    and "GetEnchantmentId item PROP_ENCHANTMENT_SLOT_3 = 0"
    and "GetEnchantmentId item PERM_ENCHANTMENT_SLOT \<noteq> SLAMROCK_MARKER_ENCHANT_ID"
  shows "snd (ApplySlamrockEnchants player item rolled)
           = item\<lparr>GetEnchantmentId := reconciledSlots (GetEnchantmentId item) rolled,
                  changed := True\<rparr>"
proof -
  have "GetEnchantmentId (snd (ApplySlamrockEnchants player item rolled)) slot
          = reconciledSlots (GetEnchantmentId item) rolled slot" for slot
    using assms
    by (cases rolled rule: rolled_cases; cases slot)
      (simp_all add: ApplySlamrockEnchants_def reconciledSlots_def Let_def modifierAt_def
        SLAMROCK_MODIFIER_SLOTS_def SLAMROCK_MARKER_SLOT_def SetEnchantment_def
        SetState_ITEM_CHANGED_def)
  then have "GetEnchantmentId (snd (ApplySlamrockEnchants player item rolled))
          = reconciledSlots (GetEnchantmentId item) rolled" by (rule ext)
  moreover have "snd (ApplySlamrockEnchants player item rolled)
      = item\<lparr>GetEnchantmentId := GetEnchantmentId (snd (ApplySlamrockEnchants player item rolled)),
             changed := True\<rparr>"
    by (cases rolled rule: rolled_cases)
      (simp_all add: ApplySlamrockEnchants_def Let_def
        SLAMROCK_MODIFIER_SLOTS_def SLAMROCK_MARKER_SLOT_def SetEnchantment_def
        SetState_ITEM_CHANGED_def)
  ultimately show ?thesis by simp
qed

lemma reconciledSlots_released:
  "reconciledSlots (GetEnchantmentId (releasedSlots item)) rolled
     = reconciledSlots (GetEnchantmentId item) rolled"
  by (rule ext)
    (simp add: reconciledSlots_def releasedSlots_def Let_def marker_nonzero
      split: EnchantmentSlot.splits)

lemma ClearThenApply_item:
  "snd (ClearThenApply player item rolled)
     = item\<lparr>GetEnchantmentId := reconciledSlots (GetEnchantmentId item) rolled, changed := True\<rparr>"
proof -
  have "snd (ClearThenApply player item rolled)
      = snd (ApplySlamrockEnchants (fst (ClearSlamrockEnchants player item)) (releasedSlots item) rolled)"
    using Clear_item [of player item] by (simp add: ClearThenApply_def split_beta)
  also have "\<dots> = (releasedSlots item)\<lparr>GetEnchantmentId :=
        reconciledSlots (GetEnchantmentId (releasedSlots item)) rolled, changed := True\<rparr>"
    by (rule Apply_item) (simp_all add: releasedSlots_def marker_nonzero)
  also have "\<dots> = item\<lparr>GetEnchantmentId := reconciledSlots (GetEnchantmentId item) rolled,
        changed := True\<rparr>"
    by (simp add: reconciledSlots_released) (simp add: releasedSlots_def)
  finally show ?thesis .
qed

lemma live_issue [simp]: "live (issue c player) = live player"
  by (simp add: issue_def)

lemma live_refreshDamage [simp]: "live (refreshDamage item player) = live player"
  by (simp add: refreshDamage_def)

lemma live_ApplyEnchantment:
  "live (ApplyEnchantment item slot apply player) =
     (if GetEnchantmentId item slot = 0 then live player
      else if apply then add_mset (slot, GetEnchantmentId item slot) (live player)
      else live player - {#(slot, GetEnchantmentId item slot)#})"
  by (simp add: ApplyEnchantment_def Let_def)

lemma Clear_live_equipped:
  assumes "GetSlot item < EQUIPMENT_SLOT_END" "live player = base + propEffects item"
  shows "live (fst (ClearSlamrockEnchants player item)) = base"
  using assms
  by (simp add: ClearSlamrockEnchants_def Let_def propEffects_def SLAMROCK_ALL_PROP_SLOTS_def
      live_ApplyEnchantment)

lemma Clear_live_bagged:
  assumes "\<not> GetSlot item < EQUIPMENT_SLOT_END"
  shows "fst (ClearSlamrockEnchants player item) = player"
  using assms
  by (simp add: ClearSlamrockEnchants_def Let_def SLAMROCK_ALL_PROP_SLOTS_def
        ClearEnchantment_def)

lemma Apply_live_equipped:
  assumes "GetSlot item < EQUIPMENT_SLOT_END"
    and "GetEnchantmentId item PROP_ENCHANTMENT_SLOT_0 = 0"
    and "GetEnchantmentId item PROP_ENCHANTMENT_SLOT_1 = 0"
    and "GetEnchantmentId item PROP_ENCHANTMENT_SLOT_2 = 0"
    and "GetEnchantmentId item PROP_ENCHANTMENT_SLOT_3 = 0"
  shows "live (fst (ApplySlamrockEnchants player item rolled))
           = live player + propEffects (snd (ApplySlamrockEnchants player item rolled))"
  using assms
  by (cases rolled rule: rolled_cases)
    (simp_all add: ApplySlamrockEnchants_def Let_def propEffects_def SLAMROCK_ALL_PROP_SLOTS_def
      SLAMROCK_MODIFIER_SLOTS_def SLAMROCK_MARKER_SLOT_def SetEnchantment_def
      SetState_ITEM_CHANGED_def live_ApplyEnchantment marker_nonzero)

lemma Apply_live_bagged:
  assumes "\<not> GetSlot item < EQUIPMENT_SLOT_END"
  shows "fst (ApplySlamrockEnchants player item rolled) = player"
proof -
  have "GetSlot (SetState_ITEM_CHANGED
      (fold (\<lambda>(slot, ident). SetEnchantment slot ident) xs it)) = GetSlot it" for xs it
    by (induction xs arbitrary: it) (auto simp: SetState_ITEM_CHANGED_def SetEnchantment_def)
  then show ?thesis using assms
    by (simp add: ApplySlamrockEnchants_def Let_def SetEnchantment_def)
qed

lemma ClearThenApply_live_equipped:
  assumes "GetSlot item < EQUIPMENT_SLOT_END" "live player = base + propEffects item"
  shows "live (fst (ClearThenApply player item rolled))
           = base + propEffects (snd (ClearThenApply player item rolled))"
proof -
  let ?p1 = "fst (ClearSlamrockEnchants player item)"
  let ?i1 = "snd (ClearSlamrockEnchants player item)"
  have i1: "?i1 = releasedSlots item" by (rule Clear_item)
  have eq: "ClearThenApply player item rolled = ApplySlamrockEnchants ?p1 ?i1 rolled"
    by (simp add: ClearThenApply_def split_beta)
  have "live (fst (ApplySlamrockEnchants ?p1 ?i1 rolled))
          = live ?p1 + propEffects (snd (ApplySlamrockEnchants ?p1 ?i1 rolled))"
    by (rule Apply_live_equipped) (simp_all add: i1 releasedSlots_def assms(1))
  then show ?thesis using Clear_live_equipped [OF assms] by (simp add: eq)
qed

lemma ClearThenApply_live_bagged:
  assumes "\<not> GetSlot item < EQUIPMENT_SLOT_END"
  shows "fst (ClearThenApply player item rolled) = player"
proof -
  have "GetSlot (snd (ClearSlamrockEnchants player item)) = GetSlot item"
    by (simp add: Clear_item releasedSlots_def)
  with assms show ?thesis
    by (simp add: ClearThenApply_def split_beta Apply_live_bagged Clear_live_bagged)
qed

lemma reconciledSlots_idem:
  "reconciledSlots (reconciledSlots before rolled) rolled = reconciledSlots before rolled"
  by (rule ext)
    (simp add: reconciledSlots_def Let_def marker_nonzero split: EnchantmentSlot.splits)

lemma Apply_emptySlots:
  assumes "GetEnchantmentId item PERM_ENCHANTMENT_SLOT = 0
           \<or> GetEnchantmentId item PERM_ENCHANTMENT_SLOT = SLAMROCK_MARKER_ENCHANT_ID"
  shows "snd (ApplySlamrockEnchants player (emptySlots item) rolled)
           = item\<lparr>GetEnchantmentId := reconciledSlots (GetEnchantmentId item) rolled,
                  changed := True\<rparr>"
proof -
  have "snd (ApplySlamrockEnchants player (emptySlots item) rolled)
      = (emptySlots item)\<lparr>GetEnchantmentId :=
           reconciledSlots (GetEnchantmentId (emptySlots item)) rolled, changed := True\<rparr>"
    by (rule Apply_item) (simp_all add: emptySlots_def marker_nonzero [symmetric])
  moreover have "reconciledSlots (GetEnchantmentId (emptySlots item)) rolled
      = reconciledSlots (GetEnchantmentId item) rolled"
    using assms
    by (intro ext) (auto simp: reconciledSlots_def emptySlots_def Let_def split: EnchantmentSlot.splits)
  ultimately show ?thesis by (simp add: emptySlots_def)
qed

lemma Apply_releasedSlots:
  "snd (ApplySlamrockEnchants player (releasedSlots item) rolled)
     = item\<lparr>GetEnchantmentId := reconciledSlots (GetEnchantmentId item) rolled, changed := True\<rparr>"
proof -
  have "snd (ApplySlamrockEnchants player (releasedSlots item) rolled)
      = (releasedSlots item)\<lparr>GetEnchantmentId :=
           reconciledSlots (GetEnchantmentId (releasedSlots item)) rolled, changed := True\<rparr>"
    by (rule Apply_item) (simp_all add: releasedSlots_def marker_nonzero)
  then show ?thesis by (simp add: reconciledSlots_released) (simp add: releasedSlots_def)
qed

text \<open>
  Claim C7, amended. For every item, player and selection, clear followed by apply leaves
  the reconciled occupancy: it is the occupancy of a single apply starting from the item
  with the engine's own slots released (the four property slots, and the permanent slot
  only if it held the marker), and, when the permanent slot was empty or held the marker,
  of a single apply starting from empty slots. The result does not depend on the equip
  position or on what the property slots held before (no stale slot), and repeating
  clear-then-apply with the same selection changes nothing. For an equipped item whose
  occupied property slots were each applied once, they are each applied once afterwards
  (no effect is applied twice); for a bagged item the player is not touched.
\<close>

theorem clear_then_apply_reconciles:
  "snd (ClearThenApply player item rolled)
     = item\<lparr>GetEnchantmentId := reconciledSlots (GetEnchantmentId item) rolled, changed := True\<rparr>
   \<and> snd (ClearThenApply player item rolled)
       = snd (ApplySlamrockEnchants other (releasedSlots item) rolled)
   \<and> (GetEnchantmentId item PERM_ENCHANTMENT_SLOT = 0
        \<or> GetEnchantmentId item PERM_ENCHANTMENT_SLOT = SLAMROCK_MARKER_ENCHANT_ID \<longrightarrow>
       snd (ClearThenApply player item rolled)
         = snd (ApplySlamrockEnchants other (emptySlots item) rolled))
   \<and> snd (ClearThenApply other (snd (ClearThenApply player item rolled)) rolled)
       = snd (ClearThenApply player item rolled)
   \<and> (GetSlot item < EQUIPMENT_SLOT_END \<and> live player = base + propEffects item \<longrightarrow>
        live (fst (ClearThenApply player item rolled))
          = base + propEffects (snd (ClearThenApply player item rolled)))
   \<and> (\<not> GetSlot item < EQUIPMENT_SLOT_END \<longrightarrow>
        fst (ClearThenApply player item rolled) = player)"
proof -
  have idem: "snd (ClearThenApply other (snd (ClearThenApply player item rolled)) rolled)
       = snd (ClearThenApply player item rolled)"
    by (simp add: ClearThenApply_item reconciledSlots_idem)
  show ?thesis
    using ClearThenApply_item [of player item rolled] Apply_releasedSlots [of other item rolled]
      Apply_emptySlots [of item other rolled] idem
      ClearThenApply_live_equipped [of item player base rolled]
      ClearThenApply_live_bagged [of item player rolled]
    by simp
qed

lemma slammedSword_after:
  "GetEnchantmentId (snd (ClearThenApply slammedHero slammedSword [8])) =
     (\<lambda>slot. if slot = PERM_ENCHANTMENT_SLOT then 900000
            else if slot = PROP_ENCHANTMENT_SLOT_1 then 8 else 0)"
  by (rule ext)
    (simp add: ClearThenApply_item reconciledSlots_def slammedSword_def heroSword_def
      SLAMROCK_MARKER_ENCHANT_ID_def modifierAt_def split: EnchantmentSlot.splits)

text \<open>
  The theorem at the equipped sword that already carries the marker and two modifiers,
  re-rolled to the single modifier 8.
\<close>

theorem clear_then_apply_reconciles_witness:
  "(GetEnchantmentId slammedSword PERM_ENCHANTMENT_SLOT = 0
      \<or> GetEnchantmentId slammedSword PERM_ENCHANTMENT_SLOT = SLAMROCK_MARKER_ENCHANT_ID)
   \<and> GetSlot slammedSword < EQUIPMENT_SLOT_END
   \<and> live slammedHero = {#} + propEffects slammedSword
   \<and> snd (ClearThenApply slammedHero slammedSword [8])
       = snd (ApplySlamrockEnchants hero (emptySlots slammedSword) [8])
   \<and> GetEnchantmentId (snd (ClearThenApply slammedHero slammedSword [8])) PROP_ENCHANTMENT_SLOT_1 = 8
   \<and> GetEnchantmentId (snd (ClearThenApply slammedHero slammedSword [8])) PROP_ENCHANTMENT_SLOT_2 = 0
   \<and> live (fst (ClearThenApply slammedHero slammedSword [8])) = {#(PROP_ENCHANTMENT_SLOT_1, 8)#}"
proof -
  note T = clear_then_apply_reconciles [of slammedHero slammedSword "[8]" hero "{#}"]
  have perm: "GetEnchantmentId slammedSword PERM_ENCHANTMENT_SLOT = 0
      \<or> GetEnchantmentId slammedSword PERM_ENCHANTMENT_SLOT = SLAMROCK_MARKER_ENCHANT_ID"
    by (simp add: slammedSword_def SLAMROCK_MARKER_ENCHANT_ID_def)
  have eq: "GetSlot slammedSword < EQUIPMENT_SLOT_END"
    by (simp add: slammedSword_def heroSword_def EQUIPMENT_SLOT_END_def)
  have lv: "live slammedHero = {#} + propEffects slammedSword"
    by (simp add: slammedHero_def slammedSword_def propEffects_def SLAMROCK_ALL_PROP_SLOTS_def)
  have a: "snd (ClearThenApply slammedHero slammedSword [8])
       = snd (ApplySlamrockEnchants hero (emptySlots slammedSword) [8])"
    using T perm by blast
  have l: "live (fst (ClearThenApply slammedHero slammedSword [8]))
       = {#} + propEffects (snd (ClearThenApply slammedHero slammedSword [8]))"
    using T eq lv by blast
  have pe: "propEffects (snd (ClearThenApply slammedHero slammedSword [8]))
       = {#(PROP_ENCHANTMENT_SLOT_1, 8)#}"
    by (simp add: propEffects_def slammedSword_after SLAMROCK_ALL_PROP_SLOTS_def)
  have s1: "GetEnchantmentId (snd (ClearThenApply slammedHero slammedSword [8]))
              PROP_ENCHANTMENT_SLOT_1 = 8"
    and s2: "GetEnchantmentId (snd (ClearThenApply slammedHero slammedSword [8]))
              PROP_ENCHANTMENT_SLOT_2 = 0"
    by (simp_all add: slammedSword_after)
  have l': "live (fst (ClearThenApply slammedHero slammedSword [8])) = {#(PROP_ENCHANTMENT_SLOT_1, 8)#}"
    using l pe by simp
  from perm eq lv a s1 s2 l' show ?thesis by blast
qed

text \<open>
  Claim C7 as stated fails for an item whose permanent slot holds an enchantment of
  another system: clear keeps it, so apply puts the marker into property slot 0, whereas
  a single apply from empty slots puts the marker into the permanent slot.
\<close>

theorem foreign_permanent_enchant_moves_marker:
  "GetEnchantmentId (snd (ClearThenApply hero enchantedSword [8])) PERM_ENCHANTMENT_SLOT = 1234
   \<and> GetEnchantmentId (snd (ClearThenApply hero enchantedSword [8])) PROP_ENCHANTMENT_SLOT_0 = 900000
   \<and> GetEnchantmentId (snd (ApplySlamrockEnchants hero (emptySlots enchantedSword) [8]))
        PERM_ENCHANTMENT_SLOT = 900000
   \<and> GetEnchantmentId (snd (ApplySlamrockEnchants hero (emptySlots enchantedSword) [8]))
        PROP_ENCHANTMENT_SLOT_0 = 0"
proof -
  have e: "emptySlots enchantedSword = heroSword"
    by (simp add: emptySlots_def enchantedSword_def heroSword_def fun_eq_iff)
  have h: "GetEnchantmentId heroSword PERM_ENCHANTMENT_SLOT = 0
           \<or> GetEnchantmentId heroSword PERM_ENCHANTMENT_SLOT = SLAMROCK_MARKER_ENCHANT_ID"
    by (simp add: heroSword_def)
  have "emptySlots heroSword = heroSword" by (simp add: emptySlots_def heroSword_def fun_eq_iff)
  with Apply_emptySlots [OF h, of hero "[8]"]
  have "snd (ApplySlamrockEnchants hero heroSword [8])
      = heroSword\<lparr>GetEnchantmentId := reconciledSlots (GetEnchantmentId heroSword) [8],
                   changed := True\<rparr>" by simp
  then have ap: "GetEnchantmentId (snd (ApplySlamrockEnchants hero (emptySlots enchantedSword) [8]))
      = reconciledSlots (GetEnchantmentId heroSword) [8]"
    by (simp only: e) simp
  have c1: "GetEnchantmentId (snd (ClearThenApply hero enchantedSword [8])) PERM_ENCHANTMENT_SLOT = 1234"
    and c2: "GetEnchantmentId (snd (ClearThenApply hero enchantedSword [8])) PROP_ENCHANTMENT_SLOT_0 = 900000"
    by (simp_all add: ClearThenApply_item reconciledSlots_def enchantedSword_def heroSword_def
        SLAMROCK_MARKER_ENCHANT_ID_def)
  have c3: "reconciledSlots (GetEnchantmentId heroSword) [8] PERM_ENCHANTMENT_SLOT = 900000"
    and c4: "reconciledSlots (GetEnchantmentId heroSword) [8] PROP_ENCHANTMENT_SLOT_0 = 0"
    by (simp_all add: reconciledSlots_def heroSword_def SLAMROCK_MARKER_ENCHANT_ID_def)
  from c1 c2 c3 c4 show ?thesis by (simp only: ap)
qed

subsection \<open>The stages of the hook\<close>

lemma calls_issue: "calls (issue c player) = calls player @ [c]"
  by (simp add: issue_def)

lemma guid_issue [simp]: "GetObjectGuid (issue c player) = GetObjectGuid player"
  by (simp add: issue_def)

lemma sendFailure_props:
  "live (sendFailure server r player) = live player"
  "filter isDestroyItemCount (calls (sendFailure server r player))
     = filter isDestroyItemCount (calls player)"
  by (simp_all add: sendFailure_def Let_def calls_issue)

lemma TryDowngrade_player:
  "live (snd (TryDowngradeItemInPlace svc player target newEntry)) = live player
   \<and> filter isDestroyItemCount (calls (snd (TryDowngradeItemInPlace svc player target newEntry)))
       = filter isDestroyItemCount (calls player)"
  by (auto simp: TryDowngradeItemInPlace_def Let_def split_beta calls_issue
      split: option.splits)

lemma upgradeAttempt_Inl:
  assumes "upgradeAttempt server cache player pItem t g = Inl r"
  shows "isSwap (outcome r) \<and> targetAfter r = Some t"
  using assms
  by (auto simp: upgradeAttempt_def Let_def split_beta split: if_splits)

lemma upgradeAttempt_Inr:
  assumes "upgradeAttempt server cache player pItem t g = Inr (player', g')"
  shows "live player' = live player
         \<and> filter isDestroyItemCount (calls player') = filter isDestroyItemCount (calls player)"
  using assms TryDowngrade_player
  by (auto simp: upgradeAttempt_def Let_def split_beta split: if_splits)

lemma downgradeAttempt_Inl:
  assumes "downgradeAttempt server cache player pItem t g = Inl r"
  shows "isSwap (outcome r) \<and> targetAfter r = Some t"
  using assms
  by (auto simp: downgradeAttempt_def Let_def split_beta split: if_splits)

lemma downgradeAttempt_Inr:
  assumes "downgradeAttempt server cache player pItem t g = Inr (player', g')"
  shows "live player' = live player
         \<and> filter isDestroyItemCount (calls player') = filter isDestroyItemCount (calls player)"
  using assms TryDowngrade_player
  by (auto simp: downgradeAttempt_def Let_def split_beta split: if_splits)

lemma empower_failure:
  assumes "isFailure (outcome (empower server cache player pItem t g))"
  shows "targetAfter (empower server cache player pItem t g) = Some t
       \<and> live (playerAfter (empower server cache player pItem t g)) = live player
       \<and> filter isDestroyItemCount (calls (playerAfter (empower server cache player pItem t g)))
           = filter isDestroyItemCount (calls player)"
  using assms
  by (auto simp: empower_def Let_def split_beta sendFailure_props calls_issue split: if_splits)

lemma empower_not_swap: "\<not> isSwap (outcome (empower server cache player pItem t g))"
  by (simp add: empower_def Let_def split_beta)


lemma empower_empty_pool:
  assumes "targetPool (ensureWhitelistLoaded server cache) t = []"
  shows "outcome (empower server cache player pItem t g) = WhitelistEmpty
       \<and> calls (playerAfter (empower server cache player pItem t g))
           = calls player @ [SendNotification WhitelistEmptyOrMissing, SendEquipError_NONE]
               @ (if targetingSpell server then [SendCastResult SPELL_FAILED_ERROR] else [])"
  using assms by (simp add: empower_def Let_def sendFailure_def calls_issue)

lemma ItemUse_rejected:
  assumes "\<not> targetAccepted pPlayer target"
  shows "outcome (ItemUse_item_slamrock server cache pPlayer pItem target g) = TargetRejected
       \<and> targetAfter (ItemUse_item_slamrock server cache pPlayer pItem target g) = target
       \<and> live (playerAfter (ItemUse_item_slamrock server cache pPlayer pItem target g)) = live pPlayer
       \<and> filter isDestroyItemCount
            (calls (playerAfter (ItemUse_item_slamrock server cache pPlayer pItem target g)))
           = filter isDestroyItemCount (calls pPlayer)"
  using assms
  by (auto simp: ItemUse_item_slamrock_def targetAccepted_def Let_def sendFailure_props calls_issue
      split: option.splits)

lemma ItemUse_accepted:
  assumes "targetAccepted pPlayer (Some t)"
  shows "ItemUse_item_slamrock server cache pPlayer pItem (Some t) g =
     (case upgradeAttempt server cache
             (issue (SendNotification (TargetingItemEntry (GetEntry t))) pPlayer) pItem t g of
        Inl done \<Rightarrow> done
      | Inr (player1, g1) \<Rightarrow>
          (case downgradeAttempt server cache player1 pItem t g1 of
             Inl done \<Rightarrow> done
           | Inr (player2, g2) \<Rightarrow> empower server cache player2 pItem t g2))"
  using assms by (simp add: ItemUse_item_slamrock_def targetAccepted_def Let_def)

lemma ItemUse_accepted_cases:
  assumes "targetAccepted pPlayer (Some t)"
  shows "(isSwap (outcome (ItemUse_item_slamrock server cache pPlayer pItem (Some t) g))
          \<and> targetAfter (ItemUse_item_slamrock server cache pPlayer pItem (Some t) g) = Some t)
       \<or> (\<exists>player2 g2.
            ItemUse_item_slamrock server cache pPlayer pItem (Some t) g
              = empower server cache player2 pItem t g2
            \<and> live player2 = live pPlayer
            \<and> filter isDestroyItemCount (calls player2) = filter isDestroyItemCount (calls pPlayer))"
proof -
  let ?p0 = "issue (SendNotification (TargetingItemEntry (GetEntry t))) pPlayer"
  have p0: "live ?p0 = live pPlayer"
    "filter isDestroyItemCount (calls ?p0) = filter isDestroyItemCount (calls pPlayer)"
    by (simp_all add: calls_issue issue_def)
  show ?thesis
  proof (cases "upgradeAttempt server cache ?p0 pItem t g")
    case (Inl r)
    with upgradeAttempt_Inl [OF Inl] show ?thesis
      by (simp add: ItemUse_accepted [OF assms])
  next
    case (Inr pg)
    obtain player1 g1 where pg: "pg = (player1, g1)" by (cases pg)
    note u = upgradeAttempt_Inr [OF Inr [unfolded pg]]
    show ?thesis
    proof (cases "downgradeAttempt server cache player1 pItem t g1")
      case (Inl r)
      with downgradeAttempt_Inl [OF Inl] show ?thesis
        using Inr pg by (simp add: ItemUse_accepted [OF assms])
    next
      case Inr2: (Inr pg2)
      obtain player2 g2 where pg2: "pg2 = (player2, g2)" by (cases pg2)
      note d = downgradeAttempt_Inr [OF Inr2 [unfolded pg2]]
      have "ItemUse_item_slamrock server cache pPlayer pItem (Some t) g
                = empower server cache player2 pItem t g2"
        using Inr pg Inr2 pg2 by (simp add: ItemUse_accepted [OF assms])
      moreover have "live player2 = live pPlayer" using u d p0 by simp
      moreover have "filter isDestroyItemCount (calls player2)
          = filter isDestroyItemCount (calls pPlayer)"
        using u d p0 by simp
      ultimately show ?thesis by blast
    qed
  qed
qed

lemma isSwap_not_failure: "isSwap out \<Longrightarrow> \<not> isFailure out"
  by (cases out) simp_all

lemma ItemUse_failure:
  assumes "isFailure (outcome (ItemUse_item_slamrock server cache pPlayer pItem target g))"
  shows "targetAfter (ItemUse_item_slamrock server cache pPlayer pItem target g) = target
       \<and> live (playerAfter (ItemUse_item_slamrock server cache pPlayer pItem target g)) = live pPlayer
       \<and> filter isDestroyItemCount
            (calls (playerAfter (ItemUse_item_slamrock server cache pPlayer pItem target g)))
           = filter isDestroyItemCount (calls pPlayer)"
proof (cases "targetAccepted pPlayer target")
  case False
  then show ?thesis using ItemUse_rejected by blast
next
  case True
  then obtain t where t: "target = Some t" by (auto simp: targetAccepted_def split: option.splits)
  from True t have acc: "targetAccepted pPlayer (Some t)" by simp
  from ItemUse_accepted_cases [OF acc, of server cache pItem g] show ?thesis
  proof (elim disjE exE conjE)
    assume "isSwap (outcome (ItemUse_item_slamrock server cache pPlayer pItem (Some t) g))"
    with assms t isSwap_not_failure show ?thesis by auto
  next
    fix player2 g2
    assume "ItemUse_item_slamrock server cache pPlayer pItem (Some t) g
              = empower server cache player2 pItem t g2"
      "live player2 = live pPlayer"
      "filter isDestroyItemCount (calls player2) = filter isDestroyItemCount (calls pPlayer)"
    with assms t empower_failure [of server cache player2 pItem t g2] show ?thesis by simp
  qed
qed


subsection \<open>The marker\<close>



lemma realm_run_target:
  "map (GetEnchantmentId (the (targetAfter
       (ItemUse_item_slamrock realm coldCache hero slamrock (Some heroSword) [50, 50, 0, 0, 0]))))
     [PERM_ENCHANTMENT_SLOT, PROP_ENCHANTMENT_SLOT_0, PROP_ENCHANTMENT_SLOT_1,
      PROP_ENCHANTMENT_SLOT_2, PROP_ENCHANTMENT_SLOT_3]
   = [900000, 0, 1, 0, 0]"
  by code_simp



subsection \<open>The failing returns\<close>

lemma PickWeighted_Nil: "PickWeightedGroupFromWhitelist [] itemLevel ex g = (None, g)"
  by (simp add: PickWeightedGroupFromWhitelist_def groupWeights_def totalWeight_def)

lemma urand_1_3: "1 \<le> fst (urand 1 SLAMROCK_MAX_MODIFIERS g) \<and> fst (urand 1 SLAMROCK_MAX_MODIFIERS g) \<le> 3"
  using urand_range [of 1 SLAMROCK_MAX_MODIFIERS g] by (simp add: SLAMROCK_MAX_MODIFIERS_def)

lemma rollModifiers_Nil: "fst (snd (rollModifiers [] itemLevel g)) = []"
proof -
  have "rollLoop [] itemLevel n [] h = ([], h)" for n h
    by (subst rollLoop.simps) (simp add: PickWeighted_Nil)
  then show ?thesis
    by (simp add: rollModifiers_def drawModifierCount_def Let_def split_beta)
qed

lemma empower_no_eligible:
  assumes "\<forall>row \<in> set (targetPool (ensureWhitelistLoaded server cache) t).
             rowSkipped (targetItemLevel t) row"
  shows "isFailure (outcome (empower server cache player pItem t g))"
proof (cases "targetPool (ensureWhitelistLoaded server cache) t = []")
  case True
  then show ?thesis using empower_empty_pool [OF True] by simp
next
  case False
  let ?pool = "targetPool (ensureWhitelistLoaded server cache) t"
  from assms have "filter (\<lambda>row. \<not> rowSkipped (targetItemLevel t) row) ?pool = []"
    by (simp add: filter_empty_conv)
  with False have "fst (drawModifierCount ?pool (targetItemLevel t) g) = 0"
    by (simp add: drawModifierCount_def Let_def split_beta)
  then have "fst (rollModifiers ?pool (targetItemLevel t) g) = 0"
    by (simp add: rollModifiers_def Let_def split_beta)
  with False show ?thesis
    by (simp add: empower_def Let_def split_beta)
qed

text \<open>
  Claim C9. Whenever the hook ends at one of its failing returns (target rejected,
  whitelist empty, no eligible enchantment, nothing rolled), the fields of the target item
  are as they were (all its enchantment slots included), the hook has applied and removed
  no enchantment effect, and no \<open>DestroyItemCount\<close> has been issued: the Slamrock is not
  consumed. A target that is
  missing, not gear, not owned by the player or carrying a random property id is
  rejected. With an empty whitelist pool for the target's kind the target is never
  mutated: the hook ends in a swap or at the whitelist-empty return, having sent the
  whitelist-empty report; with no tier-eligible row it ends in a swap or at a failing
  return. The roll over an empty pool is empty.
\<close>

theorem failure_paths_mutate_nothing:
  "(isFailure (outcome (ItemUse_item_slamrock server cache pPlayer pItem target g)) \<longrightarrow>
      targetAfter (ItemUse_item_slamrock server cache pPlayer pItem target g) = target
      \<and> live (playerAfter (ItemUse_item_slamrock server cache pPlayer pItem target g)) = live pPlayer
      \<and> filter isDestroyItemCount
           (calls (playerAfter (ItemUse_item_slamrock server cache pPlayer pItem target g)))
          = filter isDestroyItemCount (calls pPlayer))
   \<and> (\<not> targetAccepted pPlayer target \<longrightarrow>
        outcome (ItemUse_item_slamrock server cache pPlayer pItem target g) = TargetRejected)
   \<and> (\<forall>t. target = Some t \<and> targetAccepted pPlayer target
          \<and> targetPool (ensureWhitelistLoaded server cache) t = [] \<longrightarrow>
        targetAfter (ItemUse_item_slamrock server cache pPlayer pItem target g) = target
        \<and> (isSwap (outcome (ItemUse_item_slamrock server cache pPlayer pItem target g))
           \<or> outcome (ItemUse_item_slamrock server cache pPlayer pItem target g) = WhitelistEmpty
             \<and> SendNotification WhitelistEmptyOrMissing
                 \<in> set (calls (playerAfter (ItemUse_item_slamrock server cache pPlayer pItem target g)))))
   \<and> (\<forall>t. target = Some t \<and> targetAccepted pPlayer target
          \<and> (\<forall>row \<in> set (targetPool (ensureWhitelistLoaded server cache) t).
                rowSkipped (targetItemLevel t) row) \<longrightarrow>
        isSwap (outcome (ItemUse_item_slamrock server cache pPlayer pItem target g))
        \<or> isFailure (outcome (ItemUse_item_slamrock server cache pPlayer pItem target g)))
   \<and> fst (snd (rollModifiers [] itemLevel g)) = []"
proof -
  let ?R = "ItemUse_item_slamrock server cache pPlayer pItem target g"
  have a: "isFailure (outcome ?R) \<longrightarrow>
      targetAfter ?R = target \<and> live (playerAfter ?R) = live pPlayer
      \<and> filter isDestroyItemCount (calls (playerAfter ?R)) = filter isDestroyItemCount (calls pPlayer)"
    using ItemUse_failure by blast
  have b: "\<not> targetAccepted pPlayer target \<longrightarrow> outcome ?R = TargetRejected"
    using ItemUse_rejected by blast
  have c: "targetAfter ?R = target
        \<and> (isSwap (outcome ?R)
           \<or> outcome ?R = WhitelistEmpty
             \<and> SendNotification WhitelistEmptyOrMissing \<in> set (calls (playerAfter ?R)))"
    if t: "target = Some t" and acc: "targetAccepted pPlayer target"
      and empty: "targetPool (ensureWhitelistLoaded server cache) t = []" for t
  proof -
    from acc t have acc': "targetAccepted pPlayer (Some t)" by simp
    from ItemUse_accepted_cases [OF acc', of server cache pItem g] show ?thesis
    proof (elim disjE exE conjE)
      assume "isSwap (outcome (ItemUse_item_slamrock server cache pPlayer pItem (Some t) g))"
        "targetAfter (ItemUse_item_slamrock server cache pPlayer pItem (Some t) g) = Some t"
      then show ?thesis by (simp add: t)
    next
      fix player2 g2
      assume "ItemUse_item_slamrock server cache pPlayer pItem (Some t) g
                = empower server cache player2 pItem t g2"
      with empower_empty_pool [OF empty, of player2 pItem g2] show ?thesis
        by (simp add: t empower_def empty)
    qed
  qed
  have d: "isSwap (outcome ?R) \<or> isFailure (outcome ?R)"
    if t: "target = Some t" and acc: "targetAccepted pPlayer target"
      and none: "\<forall>row \<in> set (targetPool (ensureWhitelistLoaded server cache) t).
                rowSkipped (targetItemLevel t) row" for t
  proof -
    from acc t have acc': "targetAccepted pPlayer (Some t)" by simp
    from ItemUse_accepted_cases [OF acc', of server cache pItem g] show ?thesis
    proof (elim disjE exE conjE)
      assume "isSwap (outcome (ItemUse_item_slamrock server cache pPlayer pItem (Some t) g))"
      then show ?thesis by (simp add: t)
    next
      fix player2 g2
      assume "ItemUse_item_slamrock server cache pPlayer pItem (Some t) g
                = empower server cache player2 pItem t g2"
      with empower_no_eligible [OF none, of player2 pItem g2] show ?thesis by (simp add: t)
    qed
  qed
  from a b c d rollModifiers_Nil [of itemLevel g] show ?thesis by blast
qed

lemma realm_shield_run:
  "outcome (ItemUse_item_slamrock realm coldCache hero slamrock (Some heroShield) [50, 50, 0]) = WhitelistEmpty"
  "calls (playerAfter (ItemUse_item_slamrock realm coldCache hero slamrock (Some heroShield) [50, 50, 0]))
     = [SendNotification (TargetingItemEntry 500), SendNotification WhitelistEmptyOrMissing,
        SendEquipError_NONE, SendCastResult SPELL_FAILED_ERROR]"
  by code_simp+

text \<open>
  The theorem at two runs: the hero's shield (there is no armor whitelist), and a use
  without a target.
\<close>

theorem failure_paths_mutate_nothing_witness:
  "isFailure (outcome (ItemUse_item_slamrock realm coldCache hero slamrock (Some heroShield) [50, 50, 0]))
   \<and> targetAccepted hero (Some heroShield)
   \<and> targetPool (ensureWhitelistLoaded realm coldCache) heroShield = []
   \<and> targetAfter (ItemUse_item_slamrock realm coldCache hero slamrock (Some heroShield) [50, 50, 0])
       = Some heroShield
   \<and> filter isDestroyItemCount
        (calls (playerAfter (ItemUse_item_slamrock realm coldCache hero slamrock (Some heroShield) [50, 50, 0])))
       = []
   \<and> \<not> targetAccepted hero None
   \<and> outcome (ItemUse_item_slamrock realm coldCache hero slamrock None [50, 50, 0]) = TargetRejected
   \<and> targetAfter (ItemUse_item_slamrock realm coldCache hero slamrock None [50, 50, 0]) = None"
proof -
  note A = failure_paths_mutate_nothing [of realm coldCache hero slamrock "Some heroShield" "[50, 50, 0]" 0]
  note B = failure_paths_mutate_nothing [of realm coldCache hero slamrock None "[50, 50, 0]" 0]
  have f: "isFailure (outcome (ItemUse_item_slamrock realm coldCache hero slamrock (Some heroShield) [50, 50, 0]))"
    by (simp add: realm_shield_run)
  have acc: "targetAccepted hero (Some heroShield)"
    by (simp add: targetAccepted_def IsReasonableGearTarget_def heroShield_def hero_def
        INVTYPE_NON_EQUIP_def INVTYPE_BAG_def)
  have pool: "targetPool (ensureWhitelistLoaded realm coldCache) heroShield = []"
    by (simp add: targetPool_def ensureWhitelistLoaded_def LoadWhitelistFromDB_def realm_def
        coldCache_def IsWeaponTarget_def heroShield_def ITEM_CLASS_WEAPON_def)
  have nacc: "\<not> targetAccepted hero None" by (simp add: targetAccepted_def)
  have t1: "targetAfter (ItemUse_item_slamrock realm coldCache hero slamrock (Some heroShield) [50, 50, 0])
       = Some heroShield"
    and c1: "filter isDestroyItemCount
        (calls (playerAfter (ItemUse_item_slamrock realm coldCache hero slamrock (Some heroShield) [50, 50, 0])))
       = filter isDestroyItemCount (calls hero)"
    using A f by blast+
  have r: "outcome (ItemUse_item_slamrock realm coldCache hero slamrock None [50, 50, 0]) = TargetRejected"
    using B nacc by blast
  then have "isFailure (outcome (ItemUse_item_slamrock realm coldCache hero slamrock None [50, 50, 0]))"
    by simp
  with B have t2: "targetAfter (ItemUse_item_slamrock realm coldCache hero slamrock None [50, 50, 0]) = None"
    by blast
  from f acc pool nacc t1 c1 r t2 show ?thesis by (simp add: hero_def)
qed

lemma rankWalk_sound:
  "rankWalk pool itemLevel key seen roll = Some ident \<Longrightarrow>
     \<exists>row \<in> set pool. \<not> rankSkipped itemLevel key row \<and> enchantId row = ident"
  by (induction pool itemLevel key seen roll rule: rankWalk.induct)
    (auto simp: Let_def split: if_splits)

lemma PickRank_sound:
  assumes "fst (PickRandomEligibleRankEnchantForGroup pool itemLevel key g) = Some ident"
  shows "\<exists>row \<in> set pool. \<not> rowSkipped itemLevel row \<and> enchantId row = ident"
proof -
  from assms have "\<exists>roll. rankWalk pool itemLevel key 0 roll = Some ident"
    by (auto simp: PickRandomEligibleRankEnchantForGroup_def Let_def split_beta split: if_splits)
  then show ?thesis using rankWalk_sound by (fastforce simp: rankSkipped_def)
qed

lemma rollLoop_sound:
  "length rolled \<le> unat modifierCount \<Longrightarrow>
   (\<forall>ident \<in> set rolled. \<exists>row \<in> set pool. \<not> rowSkipped itemLevel row \<and> enchantId row = ident) \<Longrightarrow>
     length (fst (rollLoop pool itemLevel modifierCount rolled g)) \<le> unat modifierCount
     \<and> (\<forall>ident \<in> set (fst (rollLoop pool itemLevel modifierCount rolled g)).
           \<exists>row \<in> set pool. \<not> rowSkipped itemLevel row \<and> enchantId row = ident)"
proof (induction pool itemLevel modifierCount rolled g rule: rollLoop.induct)
  case (1 pool itemLevel modifierCount rolled g)
  show ?case
  proof (cases "length rolled < unat modifierCount")
    case False
    with "1.prems" show ?thesis by (subst (1 2) rollLoop.simps) simp
  next
    case True
    obtain r1 g1 where P: "PickWeightedGroupFromWhitelist pool itemLevel [] g = (r1, g1)"
      by (cases "PickWeightedGroupFromWhitelist pool itemLevel [] g")
    show ?thesis
    proof (cases r1)
      case None
      with True P "1.prems" show ?thesis by (subst (1 2) rollLoop.simps) simp
    next
      case (Some key)
      obtain r2 g2 where Q: "PickRandomEligibleRankEnchantForGroup pool itemLevel key g1 = (r2, g2)"
        by (cases "PickRandomEligibleRankEnchantForGroup pool itemLevel key g1")
      show ?thesis
      proof (cases r2)
        case None
        with True P Some Q "1.prems" show ?thesis by (subst (1 2) rollLoop.simps) simp
      next
        case S2: (Some picked)
        have picked: "\<exists>row \<in> set pool. \<not> rowSkipped itemLevel row \<and> enchantId row = picked"
          using PickRank_sound [of pool itemLevel key g1 picked] Q S2 by simp
        have "length (fst (rollLoop pool itemLevel modifierCount (rolled @ [picked]) g2)) \<le> unat modifierCount
          \<and> (\<forall>ident \<in> set (fst (rollLoop pool itemLevel modifierCount (rolled @ [picked]) g2)).
                 \<exists>row \<in> set pool. \<not> rowSkipped itemLevel row \<and> enchantId row = ident)"
        proof (rule "1.IH" [OF True _ _ _ _ _])
          show "(r1, g1) = PickWeightedGroupFromWhitelist pool itemLevel [] g" using P by simp
          show "r1 = Some key" by (rule Some)
          show "(r2, g2) = PickRandomEligibleRankEnchantForGroup pool itemLevel key g1" using Q by simp
          show "r2 = Some picked" by (rule S2)
          show "length (rolled @ [picked]) \<le> unat modifierCount" using True by simp
          show "\<forall>ident \<in> set (rolled @ [picked]).
                  \<exists>row \<in> set pool. \<not> rowSkipped itemLevel row \<and> enchantId row = ident"
            using "1.prems"(2) picked by auto
        qed
        with True P Some Q S2 show ?thesis by (subst (1 2) rollLoop.simps) simp
      qed
    qed
  qed
qed

lemma pick_group_succeeds:
  assumes "length pool \<le> 65537" "\<exists>row \<in> set pool. \<not> rowSkipped itemLevel row"
  shows "\<exists>key. fst (PickWeightedGroupFromWhitelist pool itemLevel [] g) = Some key
           \<and> eligibleRows pool itemLevel key \<noteq> []"
proof -
  let ?gw = "groupWeights pool itemLevel []"
  have "?gw \<noteq> []" using groupWeights_Nil_iff [of pool itemLevel "[]"] assms(2) by simp
  then have "totalWeight ?gw \<noteq> 0" using totalWeight_zero_iff [OF assms(1), of itemLevel "[]"] by simp
  then have "fst (PickWeightedGroupFromWhitelist pool itemLevel [] g) \<noteq> None"
    by (simp add: pick_group_None_iff)
  then obtain key where key: "fst (PickWeightedGroupFromWhitelist pool itemLevel [] g) = Some key"
    by auto
  then have "\<exists>roll. groupWalk ?gw 0 roll = Some key"
    by (auto simp: PickWeightedGroupFromWhitelist_def Let_def split_beta split: if_splits)
  then have "key \<in> fst ` set ?gw" using groupWalk_Some_key by blast
  then have "eligibleRows pool itemLevel key \<noteq> []" by (simp add: groupWeights_key_iff)
  with key show ?thesis by blast
qed

lemma pick_rank_succeeds:
  assumes "length pool \<le> 65537" "eligibleRows pool itemLevel key \<noteq> []"
  shows "fst (PickRandomEligibleRankEnchantForGroup pool itemLevel key g) \<noteq> None"
proof -
  have "length (eligibleRows pool itemLevel key) \<le> length pool"
    by (simp add: eligibleRows_def)
  with assms(1) have "length (eligibleRows pool itemLevel key) < 2 ^ 32" by simp
  from rank_pick_at [OF this assms(2), of g] show ?thesis by simp
qed

lemma rollLoop_complete:
  "length pool \<le> 65537 \<Longrightarrow> \<exists>row \<in> set pool. \<not> rowSkipped itemLevel row \<Longrightarrow>
   length rolled \<le> unat modifierCount \<Longrightarrow>
     length (fst (rollLoop pool itemLevel modifierCount rolled g)) = unat modifierCount"
proof (induction pool itemLevel modifierCount rolled g rule: rollLoop.induct)
  case (1 pool itemLevel modifierCount rolled g)
  show ?case
  proof (cases "length rolled < unat modifierCount")
    case False
    with "1.prems" show ?thesis by (subst rollLoop.simps) simp
  next
    case True
    obtain r1 g1 where P: "PickWeightedGroupFromWhitelist pool itemLevel [] g = (r1, g1)"
      by (cases "PickWeightedGroupFromWhitelist pool itemLevel [] g")
    from pick_group_succeeds [OF "1.prems"(1,2), of g] P obtain key where
      key: "r1 = Some key" "eligibleRows pool itemLevel key \<noteq> []" by auto
    obtain r2 g2 where Q: "PickRandomEligibleRankEnchantForGroup pool itemLevel key g1 = (r2, g2)"
      by (cases "PickRandomEligibleRankEnchantForGroup pool itemLevel key g1")
    from pick_rank_succeeds [OF "1.prems"(1) key(2), of g1] Q obtain picked where
      picked: "r2 = Some picked" by auto
    have "length (fst (rollLoop pool itemLevel modifierCount (rolled @ [picked]) g2))
            = unat modifierCount"
    proof (rule "1.IH" [OF True _ _ _ _ "1.prems"(1,2)])
      show "(r1, g1) = PickWeightedGroupFromWhitelist pool itemLevel [] g" using P by simp
      show "r1 = Some key" by (rule key(1))
      show "(r2, g2) = PickRandomEligibleRankEnchantForGroup pool itemLevel key g1" using Q by simp
      show "r2 = Some picked" by (rule picked)
      show "length (rolled @ [picked]) \<le> unat modifierCount" using True by simp
    qed
    with True P key Q picked show ?thesis by (subst rollLoop.simps) simp
  qed
qed

lemma drawModifierCount_eq:
  "drawModifierCount pool itemLevel g =
     (if pool \<noteq> [] \<and> (\<forall>row \<in> set pool. rowSkipped itemLevel row) then 0
      else fst (urand 1 SLAMROCK_MAX_MODIFIERS g),
      snd (urand 1 SLAMROCK_MAX_MODIFIERS g))"
  by (auto simp: drawModifierCount_def Let_def split_beta filter_empty_conv)

text \<open>
  What the roll does keep of its contract. For every pool and item tier the roll returns
  at most 3 (\<open>SLAMROCK_MAX_MODIFIERS\<close>) enchantment ids, at most as many as the modifier
  count, each the id of a row of the pool that passes the weight and tier test; it
  returns none when no row passes. When a row passes, the modifier count is the value
  drawn from \<open>[1, 3]\<close>, and for a pool of at most 65537 rows the roll returns at least
  one id.
\<close>

theorem roll_returns_eligible_modifiers:
  "length (fst (snd (rollModifiers pool itemLevel g))) \<le> 3
   \<and> length (fst (snd (rollModifiers pool itemLevel g))) \<le> unat (fst (rollModifiers pool itemLevel g))
   \<and> (\<forall>ident \<in> set (fst (snd (rollModifiers pool itemLevel g))).
         \<exists>row \<in> set pool. \<not> rowSkipped itemLevel row \<and> enchantId row = ident)
   \<and> ((\<forall>row \<in> set pool. rowSkipped itemLevel row) \<longrightarrow>
         fst (snd (rollModifiers pool itemLevel g)) = [])
   \<and> ((\<exists>row \<in> set pool. \<not> rowSkipped itemLevel row) \<longrightarrow>
         fst (rollModifiers pool itemLevel g) = fst (urand 1 SLAMROCK_MAX_MODIFIERS g)
         \<and> 1 \<le> fst (rollModifiers pool itemLevel g) \<and> fst (rollModifiers pool itemLevel g) \<le> 3)
   \<and> (length pool \<le> 65537 \<and> (\<exists>row \<in> set pool. \<not> rowSkipped itemLevel row) \<longrightarrow>
         1 \<le> length (fst (snd (rollModifiers pool itemLevel g))))"
proof -
  let ?d = "drawModifierCount pool itemLevel g"
  let ?mc = "fst ?d"
  let ?u = "fst (urand 1 SLAMROCK_MAX_MODIFIERS g)"
  have u: "1 \<le> unat ?u" "unat ?u \<le> 3"
    using urand_1_3 [of g] by (simp_all add: word_le_nat_alt)
  have mc3: "unat ?mc \<le> 3" using u by (simp add: drawModifierCount_eq)
  have R: "rollModifiers pool itemLevel g =
      (if ?mc = 0 then (0, [], snd ?d)
       else (?mc, fst (rollLoop pool itemLevel ?mc [] (snd ?d)),
             snd (rollLoop pool itemLevel ?mc [] (snd ?d))))"
    by (simp add: rollModifiers_def Let_def split_beta)
  note S = rollLoop_sound [of "[]" ?mc pool itemLevel "snd ?d"]
  have a: "length (fst (snd (rollModifiers pool itemLevel g))) \<le> unat (fst (rollModifiers pool itemLevel g))"
    using S by (simp add: R)
  have b: "\<forall>ident \<in> set (fst (snd (rollModifiers pool itemLevel g))).
         \<exists>row \<in> set pool. \<not> rowSkipped itemLevel row \<and> enchantId row = ident"
    using S by (simp add: R)
  have a3: "length (fst (snd (rollModifiers pool itemLevel g))) \<le> 3"
    using a mc3 by (simp add: R split: if_splits)
  have c: "fst (snd (rollModifiers pool itemLevel g)) = []" if "\<forall>row \<in> set pool. rowSkipped itemLevel row"
  proof (cases "fst (snd (rollModifiers pool itemLevel g))")
    case Nil
    then show ?thesis .
  next
    case (Cons ident rest)
    with b have "\<exists>row \<in> set pool. \<not> rowSkipped itemLevel row" by auto
    with that show ?thesis by blast
  qed
  have e: "fst (rollModifiers pool itemLevel g) = ?u
         \<and> 1 \<le> fst (rollModifiers pool itemLevel g) \<and> fst (rollModifiers pool itemLevel g) \<le> 3"
    if "\<exists>row \<in> set pool. \<not> rowSkipped itemLevel row"
  proof -
    have mc: "?mc = ?u" using that by (auto simp: drawModifierCount_eq)
    then have nz: "?mc \<noteq> 0" using u(1) by (metis not_one_le_zero unat_0)
    from mc nz have "fst (rollModifiers pool itemLevel g) = ?u" by (simp add: R)
    with urand_1_3 [of g] show ?thesis by simp
  qed
  have d: "1 \<le> length (fst (snd (rollModifiers pool itemLevel g)))"
    if "length pool \<le> 65537" "\<exists>row \<in> set pool. \<not> rowSkipped itemLevel row"
  proof -
    have mc: "?mc = ?u" using that(2) by (auto simp: drawModifierCount_eq)
    then have nz: "?mc \<noteq> 0" using u(1) by (metis not_one_le_zero unat_0)
    from rollLoop_complete [OF that, of "[]" ?mc "snd ?d"]
    have "length (fst (rollLoop pool itemLevel ?mc [] (snd ?d))) = unat ?mc" by simp
    with mc nz u(1) show ?thesis by (simp add: R)
  qed
  from a3 a b c d e show ?thesis by blast
qed

lemma scenario_rolls:
  "rollModifiers poolScenario 0 [0, 0, 0] = (1, [1], [])"
  "rollModifiers poolScenario 0 [1, 0, 0, 19, 0] = (2, [1, 2], [])"
  "rollModifiers poolScenario 0 [2, 0, 0, 0, 0, 0, 0] = (3, [1, 1, 1], [])"
  by code_simp+

text \<open>
  These bounds at the scenario pool (two groups, tier 0) with a draw of modifier count 2.
\<close>

theorem roll_returns_eligible_modifiers_witness:
  "length poolScenario \<le> 65537
   \<and> \<not> rowSkipped 0 (poolScenario ! 0) \<and> poolScenario ! 0 \<in> set poolScenario
   \<and> fst (urand 1 SLAMROCK_MAX_MODIFIERS [1, 0, 0, 19, 0]) = 2
   \<and> fst (rollModifiers poolScenario 0 [1, 0, 0, 19, 0]) = 2
   \<and> 1 \<le> length (fst (snd (rollModifiers poolScenario 0 [1, 0, 0, 19, 0])))
   \<and> length (fst (snd (rollModifiers poolScenario 0 [1, 0, 0, 19, 0]))) \<le> 2
   \<and> rollModifiers poolScenario 0 [1, 0, 0, 19, 0] = (2, [1, 2], [])"
proof -
  note T = roll_returns_eligible_modifiers [of poolScenario 0 "[1, 0, 0, 19, 0]"]
  have len: "length poolScenario \<le> 65537" by (simp add: poolScenario_def)
  have el: "\<not> rowSkipped 0 (poolScenario ! 0) \<and> poolScenario ! 0 \<in> set poolScenario"
    by (simp add: poolScenario_def rowSkipped_def)
  then have ex: "\<exists>row \<in> set poolScenario. \<not> rowSkipped 0 row" by blast
  have u: "fst (urand 1 SLAMROCK_MAX_MODIFIERS [1, 0, 0, 19, 0]) = 2"
    by (simp add: urand_def SLAMROCK_MAX_MODIFIERS_def)
  have n: "fst (rollModifiers poolScenario 0 [1, 0, 0, 19, 0]) = 2"
    using T ex u by simp
  have l1: "1 \<le> length (fst (snd (rollModifiers poolScenario 0 [1, 0, 0, 19, 0])))"
    using T len ex by blast
  have "length (fst (snd (rollModifiers poolScenario 0 [1, 0, 0, 19, 0])))
      \<le> unat (fst (rollModifiers poolScenario 0 [1, 0, 0, 19, 0]))"
    using T by blast
  with n have l2: "length (fst (snd (rollModifiers poolScenario 0 [1, 0, 0, 19, 0]))) \<le> 2"
    by simp
  from len el u n l1 l2 scenario_rolls(2) show ?thesis by blast
qed

text \<open>
  Claim C1: no two entries of a roll share an effective group key, each iteration
  excluding the groups already chosen. The code does not do this. The loop is commented
  "Pick without replacement (avoid duplicates)" and the sampler does leave out the groups
  of its exclusion list (with group \<open>A\<close> excluded it returns \<open>B\<close>), but the loop hands
  it the list \<open>noExclusions\<close>, which nothing ever fills. At the scenario pool of the
  two groups \<open>A\<close> and \<open>B\<close>, tier 0, with a modifier count of 3 and three draws of group
  \<open>A\<close>, the roll returns id 1 three times: three entries of one group, where the claim
  has two entries, one per group.
\<close>

theorem roll_repeats_a_group:
  "rollModifiers poolScenario 0 [2, 0, 0, 0, 0, 0, 0] = (3, [1, 1, 1], [])
   \<and> map GetEffectiveGroupKey (filter (\<lambda>row. enchantId row = 1) poolScenario) = [''A'']
   \<and> map GetEffectiveGroupKey (filter (\<lambda>row. \<not> rowSkipped 0 row) poolScenario) = [''A'', ''B'']
   \<and> fst (PickWeightedGroupFromWhitelist poolScenario 0 [''A''] [0]) = Some ''B''"
  by code_simp

end
